theory Spec2Isabelle
  imports Main "HOL-Library.List_Lexorder" "HOL-Library.Sublist"
begin

section \<open>JavaScript strings\<close>

text \<open>
  A JavaScript string is a sequence of UTF-16 code units; a code unit is modelled as a
  natural number and a string as the list of its code units.  Strict equality \<open>===\<close> on
  strings is equality of these lists, and the default order of \<open>Array.prototype.sort\<close>
  on strings is the lexicographic order on the code units, which is the order that
  \<open>HOL-Library.List_Lexorder\<close> puts on lists.  \<open>js ''abc''\<close> is the string literal
  \<open>'abc'\<close>.
\<close>

type_synonym jsstring = "nat list"

definition js :: "string \<Rightarrow> jsstring" where
  "js s = map of_char s"

text \<open>The code units of \<open>{\<close>, \<open>}\<close> and the comma.\<close>

definition LBRACE :: nat where "LBRACE = 123"
definition RBRACE :: nat where "RBRACE = 125"
definition COMMA :: nat where "COMMA = 44"

text \<open>The glyph \<open>\<lambda>\<close> (one code unit, 955) and the literal \<open>'TRAP'\<close>.\<close>

definition LAMBDA :: jsstring where "LAMBDA = [955]"
definition TRAP :: jsstring where "TRAP = js ''TRAP''"

text \<open>
  \<open>String.prototype.trim\<close> removes white space and line terminators from both ends:
  TAB, LF, VT, FF, CR, SP, NBSP, U+1680, U+2000 .. U+200A, U+2028, U+2029, U+202F, U+205F,
  U+3000 and U+FEFF.
\<close>

definition isWhiteSpace :: "nat \<Rightarrow> bool" where
  "isWhiteSpace c \<longleftrightarrow>
     c \<in> set [9, 10, 11, 12, 13, 32, 160, 5760, 8232, 8233, 8239, 8287, 12288, 65279]
     \<or> (8192 \<le> c \<and> c \<le> 8202)"

definition trim :: "jsstring \<Rightarrow> jsstring" where
  "trim s = rev (dropWhile isWhiteSpace (rev (dropWhile isWhiteSpace s)))"

definition startsWith :: "jsstring \<Rightarrow> nat \<Rightarrow> bool" where
  "startsWith s c = (case s of [] \<Rightarrow> False | x # _ \<Rightarrow> x = c)"

definition endsWith :: "jsstring \<Rightarrow> nat \<Rightarrow> bool" where
  "endsWith s c = (s \<noteq> [] \<and> last s = c)"

text \<open>\<open>s.substring(a, b)\<close>: both indices are clamped to the length and swapped when \<open>a > b\<close>.\<close>

definition substring :: "jsstring \<Rightarrow> nat \<Rightarrow> nat \<Rightarrow> jsstring" where
  "substring s a b =
     (let a' = min a (length s); b' = min b (length s)
      in take (max a' b' - min a' b') (drop (min a' b') s))"

text \<open>\<open>s.slice(1, -1)\<close>: from index 1 up to, not including, the last code unit.\<close>

definition slice_1_m1 :: "jsstring \<Rightarrow> jsstring" where
  "slice_1_m1 s = take (length s - 1 - 1) (drop 1 s)"

text \<open>\<open>s.split(',')\<close>: the pieces between the separators; the empty string gives \<open>['']\<close>.\<close>

fun split :: "jsstring \<Rightarrow> nat \<Rightarrow> jsstring list" where
  "split [] c = [[]]"
| "split (x # xs) c =
     (if x = c then [] # split xs c
      else (case split xs c of [] \<Rightarrow> [[x]] | p # ps \<Rightarrow> (x # p) # ps))"

text \<open>\<open>xs.join(',')\<close>.\<close>

fun join :: "jsstring list \<Rightarrow> nat \<Rightarrow> jsstring" where
  "join [] c = []"
| "join [x] c = x"
| "join (x # y # ys) c = x @ c # join (y # ys) c"

text \<open>
  The idiom \<open>xs.forEach(x => { if (!acc.includes(x)) acc.push(x) })\<close>, which the source
  uses for every duplicate-free union.
\<close>

definition pushNew :: "'a list \<Rightarrow> 'a list \<Rightarrow> 'a list" where
  "pushNew xs acc = fold (\<lambda>x acc. if x \<in> set acc then acc else acc @ [x]) xs acc"

section \<open>Data model\<close>

text \<open>
  Class \<open>Transition\<close>: the constructor wraps a \<open>nextStates\<close> that is not an array into a
  one-element array, so the field always holds an array.  Class \<open>NFA\<close> does the same for
  \<open>finalStates\<close> and \<open>alphabet\<close>.  States and symbols are strings.
\<close>

record Transition =
  state :: jsstring
  nextStates :: "jsstring list"
  symbol :: jsstring

record NFA =
  initialState :: jsstring
  finalStates :: "jsstring list"
  states :: "jsstring list"
  alphabet :: "jsstring list"
  transitions :: "Transition list"

definition mkTransition :: "jsstring \<Rightarrow> jsstring list \<Rightarrow> jsstring \<Rightarrow> Transition" where
  "mkTransition s ns a = \<lparr>state = s, nextStates = ns, symbol = a\<rparr>"

section \<open>State-set codec\<close>

definition isMultiState :: "jsstring \<Rightarrow> bool" where
  "isMultiState s \<longleftrightarrow> startsWith s LBRACE \<and> endsWith s RBRACE"

text \<open>
  \<open>separateStates\<close> returns the array of the pieces for a multi-state and the string
  itself, not an array, for any other state.
\<close>

datatype separated = Str jsstring | Arr "jsstring list"

definition separateStates :: "jsstring \<Rightarrow> separated" where
  "separateStates s =
     (if isMultiState s then Arr (split (substring s 1 (length s - 1)) COMMA) else Str s)"

text \<open>
  \<open>v.includes(x)\<close> on the result of \<open>separateStates\<close>: \<open>Array.prototype.includes\<close> is a
  membership test, \<open>String.prototype.includes\<close> is a substring test.
\<close>

fun includes_js :: "separated \<Rightarrow> jsstring \<Rightarrow> bool" where
  "includes_js (Arr xs) x = (x \<in> set xs)"
| "includes_js (Str s) x = sublist x s"

definition formatDotState :: "jsstring \<Rightarrow> jsstring" where
  "formatDotState s =
     (if isMultiState s then filter (\<lambda>c. c \<noteq> COMMA) (slice_1_m1 s) else s)"

text \<open>
  \<open>combineStates\<close>: an entry of the array is a string, or \<open>null\<close>/\<open>undefined\<close> (\<open>None\<close>);
  the result is a string or \<open>null\<close> (\<open>None\<close>).  \<open>nonNull\<close> is
  \<open>states.filter(e => e != null)\<close>.  The branch for a nested array does not arise for
  entries of this type.
\<close>

definition nonNull :: "'a option list \<Rightarrow> 'a list" where
  "nonNull xs = map the (filter (\<lambda>e. e \<noteq> None) xs)"

definition combineStates :: "jsstring option list \<Rightarrow> jsstring option" where
  "combineStates xs =
     (let ys = nonNull xs in
      if length ys = 0 then None
      else let zs = sort ys in
        if length zs = 1 then Some (hd zs)
        else Some ([LBRACE] @ join zs COMMA @ [RBRACE]))"

text \<open>The composition as the specification words it: sorted, deduplicated, joined.\<close>

definition compose_spec :: "jsstring option list \<Rightarrow> jsstring option" where
  "compose_spec xs =
     (case sort (nonNull xs) of
        [] \<Rightarrow> None
      | [x] \<Rightarrow> Some x
      | zs \<Rightarrow> Some ([LBRACE] @ join (remdups zs) COMMA @ [RBRACE]))"

section \<open>Transition index\<close>

definition findNextStates :: "jsstring \<Rightarrow> jsstring \<Rightarrow> Transition list \<Rightarrow> jsstring list" where
  "findNextStates s a ts =
     fold (\<lambda>t acc. pushNew (nextStates t) acc)
          (filter (\<lambda>t. state t = s \<and> symbol t = a) ts) []"

section \<open>Closure engine\<close>

definition isEpsilon :: "jsstring \<Rightarrow> bool" where
  "isEpsilon a \<longleftrightarrow> a = [] \<or> a = LAMBDA"

text \<open>A \<open>forEach\<close> whose body may fail to return: the first \<open>None\<close> ends it.\<close>

fun forEachOpt :: "'a list \<Rightarrow> ('a \<Rightarrow> 'b \<Rightarrow> 'b option) \<Rightarrow> 'b \<Rightarrow> 'b option" where
  "forEachOpt [] f acc = Some acc"
| "forEachOpt (x # xs) f acc = (case f x acc of None \<Rightarrow> None | Some acc' \<Rightarrow> forEachOpt xs f acc')"

text \<open>
  \<open>fetch_E_Closure\<close> calls itself for every newly found state, each call starting from a
  fresh \<open>eClosure\<close>.  The first argument bounds the depth of the recursion; \<open>None\<close> means
  that the call needs a deeper recursion than that, and a call that is \<open>None\<close> for every
  bound never returns.
\<close>

fun fetch_E_Closure :: "nat \<Rightarrow> jsstring \<Rightarrow> Transition list \<Rightarrow> jsstring list option" where
  "fetch_E_Closure 0 s ts = None"
| "fetch_E_Closure (Suc d) s ts =
     forEachOpt ts (\<lambda>t eClosure.
         if isEpsilon (trim (symbol t)) \<and> s = state t then
           forEachOpt (nextStates t) (\<lambda>nextState eClosure.
               if nextState \<in> set eClosure then Some eClosure
               else (case fetch_E_Closure d nextState ts of
                       None \<Rightarrow> None
                     | Some subEClosure \<Rightarrow> Some (pushNew subEClosure (eClosure @ [nextState]))))
             eClosure
         else Some eClosure)
       [s]"

text \<open>
  \<open>lambdaClosureNFA\<close>, the returned automaton as a value.  \<open>hasLambda\<close> compares the
  symbol itself, \<open>fetch_E_Closure\<close> the trimmed symbol.  Every closure is computed under
  the same bound on the depth of the recursion.
\<close>

definition hasLambda :: "NFA \<Rightarrow> bool" where
  "hasLambda nfa = list_ex (\<lambda>t. symbol t = [] \<or> symbol t = LAMBDA) (transitions nfa)"

definition closeSymbol :: "nat \<Rightarrow> NFA \<Rightarrow> jsstring list \<Rightarrow> jsstring \<Rightarrow> jsstring list option" where
  "closeSymbol d nfa stateClosure a =
     map_option sort
       (forEachOpt stateClosure (\<lambda>closureState symbolNextStates.
            forEachOpt (findNextStates closureState a (transitions nfa))
              (\<lambda>nextState symbolNextStates.
                 case fetch_E_Closure d nextState (transitions nfa) of
                   None \<Rightarrow> None
                 | Some closure \<Rightarrow> Some (pushNew closure symbolNextStates))
              symbolNextStates)
          [])"

definition closeState :: "nat \<Rightarrow> NFA \<Rightarrow> jsstring \<Rightarrow> Transition list \<Rightarrow> Transition list option" where
  "closeState d nfa s nfaClosedTransitions =
     (case fetch_E_Closure d s (transitions nfa) of
        None \<Rightarrow> None
      | Some stateClosure \<Rightarrow>
          forEachOpt (alphabet nfa) (\<lambda>a acc.
              case closeSymbol d nfa stateClosure a of
                None \<Rightarrow> None
              | Some symbolNextStates \<Rightarrow> Some (acc @ [mkTransition s symbolNextStates a]))
            nfaClosedTransitions)"

definition lambdaClosureNFA :: "nat \<Rightarrow> NFA \<Rightarrow> NFA option" where
  "lambdaClosureNFA d nfa =
     (if \<not> hasLambda nfa then Some nfa
      else case forEachOpt (states nfa) (closeState d nfa) [] of
        None \<Rightarrow> None
      | Some nfaClosedTransitions \<Rightarrow>
         (case fetch_E_Closure d (initialState nfa) (transitions nfa) of
            None \<Rightarrow> None
          | Some initialStateClosure \<Rightarrow>
              let initClosureHasFinalState =
                    list_ex (\<lambda>fs. fs \<in> set initialStateClosure) (finalStates nfa)
              in Some \<lparr>initialState = initialState nfa,
                       finalStates = (if initClosureHasFinalState
                                      then finalStates nfa @ [initialState nfa]
                                      else finalStates nfa),
                       states = states nfa,
                       alphabet = alphabet nfa,
                       transitions = nfaClosedTransitions\<rparr>))"

text \<open>
  The same function over a store of arrays, for the effect on its argument: an automaton
  object holds a reference to its \<open>finalStates\<close> array, \<open>push\<close> updates the array behind
  the reference, and \<open>new NFA(nfa.initialState, nfa.finalStates, ...)\<close> copies the
  reference.  The other arrays are not written to.
\<close>

type_synonym heap = "nat \<Rightarrow> jsstring list"

record NFA_obj =
  obj_initialState :: jsstring
  obj_finalStates :: nat
  obj_states :: "jsstring list"
  obj_alphabet :: "jsstring list"
  obj_transitions :: "Transition list"

definition deref :: "heap \<Rightarrow> NFA_obj \<Rightarrow> NFA" where
  "deref h r = \<lparr>initialState = obj_initialState r, finalStates = h (obj_finalStates r),
                states = obj_states r, alphabet = obj_alphabet r,
                transitions = obj_transitions r\<rparr>"

definition lambdaClosureNFA_heap :: "nat \<Rightarrow> heap \<Rightarrow> NFA_obj \<Rightarrow> (heap \<times> NFA_obj) option" where
  "lambdaClosureNFA_heap d h nfa =
     (if \<not> hasLambda (deref h nfa) then Some (h, nfa)
      else case forEachOpt (obj_states nfa) (closeState d (deref h nfa)) [] of
        None \<Rightarrow> None
      | Some nfaClosedTransitions \<Rightarrow>
         (case fetch_E_Closure d (obj_initialState nfa) (obj_transitions nfa) of
            None \<Rightarrow> None
          | Some initialStateClosure \<Rightarrow>
              let initClosureHasFinalState =
                    list_ex (\<lambda>fs. fs \<in> set initialStateClosure) (h (obj_finalStates nfa));
                  h' = (if initClosureHasFinalState
                        then h(obj_finalStates nfa := h (obj_finalStates nfa) @ [obj_initialState nfa])
                        else h)
              in Some (h', \<lparr>obj_initialState = obj_initialState nfa,
                            obj_finalStates = obj_finalStates nfa,
                            obj_states = obj_states nfa,
                            obj_alphabet = obj_alphabet nfa,
                            obj_transitions = nfaClosedTransitions\<rparr>)))"

section \<open>Subset constructor\<close>

text \<open>
  The local variables of \<open>generateDFA\<close>.  \<open>stack.pop()\<close> takes the last element and
  \<open>push\<close> appends.  The step counter is a JavaScript number that only counts loop
  iterations; it is modelled as an integer.
\<close>

record Build =
  dfaStates :: "jsstring list"
  dfaTransitions :: "Transition list"
  stack :: "jsstring list"
  stepCounter :: int
  stepInterrupt :: bool

text \<open>\<open>isMultiState(state) ? separateStates(state) : [state]\<close>\<close>

definition memberStates :: "jsstring \<Rightarrow> jsstring list" where
  "memberStates s = (case separateStates s of Arr xs \<Rightarrow> xs | Str x \<Rightarrow> [x])"

definition nextStatesUnion :: "NFA \<Rightarrow> jsstring list \<Rightarrow> jsstring \<Rightarrow> jsstring list" where
  "nextStatesUnion nfa sts a =
     fold (\<lambda>s acc. pushNew (findNextStates s a (transitions nfa)) acc) sts []"

text \<open>\<open>if (combinedStatesUnion)\<close>: \<open>null\<close> and the empty string are falsy.\<close>

definition truthy :: "jsstring option \<Rightarrow> bool" where
  "truthy v = (case v of None \<Rightarrow> False | Some s \<Rightarrow> s \<noteq> [])"

definition addTrap :: "NFA \<Rightarrow> jsstring \<Rightarrow> jsstring \<Rightarrow> Build \<Rightarrow> Build" where
  "addTrap nfa s a b =
     (let b1 = (if TRAP \<in> set (dfaStates b) then b
                else b\<lparr>dfaTransitions :=
                         dfaTransitions b @ map (\<lambda>a'. mkTransition TRAP [TRAP] a') (alphabet nfa),
                       dfaStates := dfaStates b @ [TRAP]\<rparr>)
      in b1\<lparr>dfaTransitions := dfaTransitions b1 @ [mkTransition s [TRAP] a]\<rparr>)"

definition exploreSymbol :: "NFA \<Rightarrow> jsstring \<Rightarrow> jsstring list \<Rightarrow> jsstring \<Rightarrow> Build \<Rightarrow> Build" where
  "exploreSymbol nfa s sts a b =
     (let combinedStatesUnion = combineStates (map Some (nextStatesUnion nfa sts a)) in
      if truthy combinedStatesUnion then
        (let c = the combinedStatesUnion;
             b1 = b\<lparr>dfaTransitions := dfaTransitions b @ [mkTransition s [c] a]\<rparr>
         in if c \<in> set (dfaStates b1) then b1
            else b1\<lparr>dfaStates := dfaStates b1 @ [c], stack := stack b1 @ [c]\<rparr>)
      else addTrap nfa s a b)"

definition exploreState :: "NFA \<Rightarrow> jsstring \<Rightarrow> Build \<Rightarrow> Build" where
  "exploreState nfa s b = fold (exploreSymbol nfa s (memberStates s)) (alphabet nfa) b"

function subsetLoop :: "NFA \<Rightarrow> int \<Rightarrow> Build \<Rightarrow> Build" where
  "subsetLoop nfa stepCounterStop b =
     (if stack b = [] then b
      else let s = last (stack b);
               b1 = b\<lparr>stack := butlast (stack b), stepCounter := stepCounter b + 1\<rparr>
           in if stepCounter b1 = stepCounterStop then b1\<lparr>stepInterrupt := True\<rparr>
              else subsetLoop nfa stepCounterStop (exploreState nfa s b1))"
  by pat_completeness auto

definition initialBuild :: "NFA \<Rightarrow> Build" where
  "initialBuild nfa = \<lparr>dfaStates = [initialState nfa], dfaTransitions = [],
                       stack = [initialState nfa], stepCounter = 0, stepInterrupt = False\<rparr>"

definition isFinalState :: "NFA \<Rightarrow> jsstring \<Rightarrow> bool" where
  "isFinalState nfa dfaState =
     list_ex (\<lambda>fs. includes_js (separateStates dfaState) fs) (finalStates nfa)"

text \<open>
  \<open>generateDFA\<close> takes the value of the global \<open>LAST_COMPLETED_STEP_COUNT\<close> and returns
  the automaton with the new value of the global.  The write of the rendered table to the
  document is not part of the model.
\<close>

definition generateDFA :: "nat \<Rightarrow> NFA \<Rightarrow> int \<Rightarrow> int \<Rightarrow> (NFA \<times> int) option" where
  "generateDFA d nfa0 stepCounterStop LAST_COMPLETED_STEP_COUNT =
     (case lambdaClosureNFA d nfa0 of
        None \<Rightarrow> None
      | Some nfa \<Rightarrow>
          let b = subsetLoop nfa stepCounterStop (initialBuild nfa);
              dfaFinalStates = map formatDotState (filter (isFinalState nfa) (dfaStates b))
          in Some (\<lparr>initialState = initialState nfa, finalStates = dfaFinalStates,
                    states = dfaStates b, alphabet = alphabet nfa,
                    transitions = dfaTransitions b\<rparr>,
                   if \<not> stepInterrupt b then stepCounter b else LAST_COMPLETED_STEP_COUNT))"

section \<open>Minimizer\<close>

text \<open>
  The outer \<open>forEach\<close> runs over the array that \<open>dfa.states\<close> held when \<open>minimizeDFA\<close>
  was called, each inner \<open>forEach\<close> over the array that \<open>dfa.states\<close> holds when that
  inner loop starts: a merge assigns new arrays to the fields and leaves the old ones as
  they were.  \<open>return\<close> in the callback ends the work on the current pair only.
\<close>

definition rewriteTarget :: "jsstring \<Rightarrow> jsstring \<Rightarrow> Transition \<Rightarrow> Transition" where
  "rewriteTarget remove replace t =
     (case nextStates t of
        [] \<Rightarrow> t
      | n # ns \<Rightarrow> if n = remove then t\<lparr>nextStates := replace # ns\<rparr> else t)"

definition mergePair :: "jsstring \<Rightarrow> jsstring \<Rightarrow> NFA \<Rightarrow> NFA" where
  "mergePair s s2 dfa =
     (if s \<noteq> s2 \<and>
         (formatDotState s \<in> set (finalStates dfa)) = (formatDotState s2 \<in> set (finalStates dfa))
      then
        (let statesEqual =
               list_all (\<lambda>a. findNextStates s a (transitions dfa) = findNextStates s2 a (transitions dfa))
                        (alphabet dfa)
         in if statesEqual then
              (let (remove, replace) = (if initialState dfa = s then (s2, s) else (s, s2))
               in if remove = TRAP then dfa
                  else dfa\<lparr>states := filter (\<lambda>x. formatDotState x \<noteq> formatDotState remove) (states dfa),
                           transitions := map (rewriteTarget remove replace)
                                              (filter (\<lambda>t. state t \<noteq> remove) (transitions dfa)),
                           finalStates := filter (\<lambda>x. formatDotState x \<noteq> formatDotState remove)
                                                 (finalStates dfa)\<rparr>)
            else dfa)
      else dfa)"

definition minimizeDFA :: "NFA \<Rightarrow> NFA" where
  "minimizeDFA dfa =
     fold (\<lambda>s dfa1. fold (\<lambda>s2 dfa2. mergePair s s2 dfa2) (states dfa1) dfa1) (states dfa) dfa"

section \<open>Measure of the exploration loop\<close>

text \<open>
  Every state that the loop pushes is the composition of a duplicate-free list of targets
  of the automaton's transitions; there are finitely many of them.  The loop terminates
  because an iteration pops one state and pushes only states not yet discovered.
\<close>

definition targets :: "NFA \<Rightarrow> jsstring set" where
  "targets nfa = (\<Union>t \<in> set (transitions nfa). set (nextStates t))"

definition candidates :: "NFA \<Rightarrow> jsstring set" where
  "candidates nfa =
     {c. \<exists>xs. distinct xs \<and> set xs \<subseteq> targets nfa \<and> combineStates (map Some xs) = Some c}"

definition unexplored :: "NFA \<Rightarrow> Build \<Rightarrow> nat" where
  "unexplored nfa b = 2 * card (candidates nfa - set (dfaStates b)) + length (stack b)"

section \<open>Invariant of the exploration loop\<close>

text \<open>
  \<open>outgoing s a ts\<close> are the transitions of \<open>ts\<close> with source \<open>s\<close> and symbol \<open>a\<close>, in
  their order.  A row is complete when every symbol of the alphabet has exactly one
  such transition, with one target.  \<open>loopInv\<close> holds between two iterations of the
  loop: the states on the stack are discovered and have no transition yet, every other
  discovered state has a complete row.  \<open>rowInv\<close> holds inside an iteration, where the
  row of the popped state \<open>s\<close> is complete on the symbols \<open>D\<close> already handled.
\<close>

definition outgoing :: "jsstring \<Rightarrow> jsstring \<Rightarrow> Transition list \<Rightarrow> Transition list" where
  "outgoing s a ts = filter (\<lambda>t. state t = s \<and> symbol t = a) ts"

definition rowComplete :: "jsstring list \<Rightarrow> Transition list \<Rightarrow> jsstring \<Rightarrow> bool" where
  "rowComplete alph ts s \<longleftrightarrow> (\<forall>a \<in> set alph. \<exists>n. outgoing s a ts = [mkTransition s [n] a])"

definition rowInv :: "NFA \<Rightarrow> jsstring \<Rightarrow> jsstring set \<Rightarrow> Build \<Rightarrow> bool" where
  "rowInv nfa s D b \<longleftrightarrow>
     distinct (stack b) \<and> set (stack b) \<subseteq> set (dfaStates b)
     \<and> s \<in> set (dfaStates b) \<and> s \<notin> set (stack b)
     \<and> (\<forall>t \<in> set (dfaTransitions b). state t \<in> set (dfaStates b) \<and> state t \<notin> set (stack b))
     \<and> (\<forall>s' \<in> set (dfaStates b). s' \<notin> set (stack b) \<longrightarrow> s' \<noteq> s \<longrightarrow>
           rowComplete (alphabet nfa) (dfaTransitions b) s')
     \<and> (\<forall>a \<in> set (alphabet nfa).
           if a \<in> D then (\<exists>n. outgoing s a (dfaTransitions b) = [mkTransition s [n] a])
           else outgoing s a (dfaTransitions b) = [])"

definition loopInv :: "NFA \<Rightarrow> Build \<Rightarrow> bool" where
  "loopInv nfa b \<longleftrightarrow>
     distinct (stack b) \<and> set (stack b) \<subseteq> set (dfaStates b)
     \<and> (\<forall>t \<in> set (dfaTransitions b). state t \<in> set (dfaStates b) \<and> state t \<notin> set (stack b))
     \<and> (\<forall>s \<in> set (dfaStates b). s \<notin> set (stack b) \<longrightarrow>
           rowComplete (alphabet nfa) (dfaTransitions b) s)"

section \<open>Acyclic epsilon transitions\<close>

text \<open>
  \<open>epsilonRanked rank ts\<close>: every epsilon transition of \<open>ts\<close> (a transition whose trimmed
  symbol is empty or \<open>\<lambda>\<close>) that leads to another state leads to a state of smaller
  rank.  Such a rank exists exactly when the epsilon transitions form no cycle through
  two or more states.
\<close>

definition epsilonRanked :: "(jsstring \<Rightarrow> nat) \<Rightarrow> Transition list \<Rightarrow> bool" where
  "epsilonRanked rank ts \<longleftrightarrow>
     (\<forall>t \<in> set ts. isEpsilon (trim (symbol t)) \<longrightarrow>
        (\<forall>n \<in> set (nextStates t). n \<noteq> state t \<longrightarrow> rank n < rank (state t)))"

section \<open>Example automata\<close>

text \<open>Two states joined by \<open>\<lambda>\<close>-transitions in both directions: \<open>A -\<lambda>-> B\<close>, \<open>B -\<lambda>-> A\<close>.\<close>

definition cyclicEpsilon :: "Transition list" where
  "cyclicEpsilon =
     [mkTransition (js ''A'') [js ''B''] LAMBDA, mkTransition (js ''B'') [js ''A''] LAMBDA]"

text \<open>
  \<open>S -0-> A\<close> with the final state \<open>A\<close>: reading a second \<open>0\<close> leads to the trap state.
\<close>

definition trapNFA :: NFA where
  "trapNFA = \<lparr>initialState = js ''S'', finalStates = [js ''A''],
               states = [js ''S'', js ''A''], alphabet = [js ''0''],
               transitions = [mkTransition (js ''S'') [js ''A''] (js ''0'')]\<rparr>"

text \<open>
  An automaton with the simple state \<open>AB\<close> as its initial state, from which \<open>0\<close> leads to
  \<open>A\<close> and to \<open>B\<close>; \<open>mergeDFA\<close> is the automaton that \<open>generateDFA\<close> returns for it.
\<close>

definition mergeNFA :: NFA where
  "mergeNFA = \<lparr>initialState = js ''AB'', finalStates = [js ''Q''],
                states = [js ''AB'', js ''A'', js ''B'', js ''X''], alphabet = [js ''0''],
                transitions = [mkTransition (js ''AB'') [js ''A''] (js ''0''),
                               mkTransition (js ''AB'') [js ''B''] (js ''0''),
                               mkTransition (js ''A'') [js ''X''] (js ''0''),
                               mkTransition (js ''B'') [js ''X''] (js ''0''),
                               mkTransition (js ''X'') [js ''X''] (js ''0'')]\<rparr>"

definition mergeDFA :: NFA where
  "mergeDFA = \<lparr>initialState = js ''AB'', finalStates = [],
                states = [js ''AB'', js ''{A,B}'', js ''X''], alphabet = [js ''0''],
                transitions = [mkTransition (js ''AB'') [js ''{A,B}''] (js ''0''),
                               mkTransition (js ''{A,B}'') [js ''X''] (js ''0''),
                               mkTransition (js ''X'') [js ''X''] (js ''0'')]\<rparr>"

text \<open>The same shape with the final state \<open>B\<close>.\<close>

definition concatNFA :: NFA where
  "concatNFA = \<lparr>initialState = js ''AB'', finalStates = [js ''B''],
                states = [js ''AB'', js ''A'', js ''B''], alphabet = [js ''0''],
                transitions = [mkTransition (js ''AB'') [js ''A''] (js ''0''),
                               mkTransition (js ''AB'') [js ''B''] (js ''0''),
                               mkTransition (js ''A'') [js ''A''] (js ''0'')]\<rparr>"

text \<open>
  \<open>A -\<lambda>-> B\<close>, \<open>B -1-> C\<close> with the final state \<open>C\<close>.
\<close>

definition lambdaNFA :: NFA where
  "lambdaNFA = \<lparr>initialState = js ''A'', finalStates = [js ''C''],
                 states = [js ''A'', js ''B'', js ''C''], alphabet = [js ''1''],
                 transitions = [mkTransition (js ''A'') [js ''B''] LAMBDA,
                                mkTransition (js ''B'') [js ''C''] (js ''1'')]\<rparr>"

text \<open>
  Automaton objects whose \<open>finalStates\<close> array lives at address 0 of the store \<open>heapA\<close>
  and holds the initial state \<open>A\<close>: one with a \<open>\<lambda>\<close>-transition, one without.
\<close>

definition lambdaFinalObj :: NFA_obj where
  "lambdaFinalObj = \<lparr>obj_initialState = js ''A'', obj_finalStates = 0,
                 obj_states = [js ''A'', js ''B''], obj_alphabet = [js ''1''],
                 obj_transitions = [mkTransition (js ''A'') [js ''B''] LAMBDA,
                                    mkTransition (js ''B'') [js ''B''] (js ''1'')]\<rparr>"

definition plainFinalObj :: NFA_obj where
  "plainFinalObj = \<lparr>obj_initialState = js ''A'', obj_finalStates = 0,
                 obj_states = [js ''A''], obj_alphabet = [js ''1''],
                 obj_transitions = [mkTransition (js ''A'') [js ''A''] (js ''1'')]\<rparr>"

definition heapA :: heap where
  "heapA = (\<lambda>_. [])(0 := [js ''A''])"

text \<open>
  The automaton \<open>A -0-> A\<close>, \<open>A -0-> B\<close>, \<open>A -1-> A\<close>, \<open>B -1-> C\<close> with the final state \<open>C\<close>.
\<close>

definition scenarioNFA :: NFA where
  "scenarioNFA = \<lparr>initialState = js ''A'', finalStates = [js ''C''],
                   states = [js ''A'', js ''B'', js ''C''], alphabet = [js ''0'', js ''1''],
                   transitions = [mkTransition (js ''A'') [js ''A''] (js ''0''),
                                  mkTransition (js ''A'') [js ''B''] (js ''0''),
                                  mkTransition (js ''A'') [js ''A''] (js ''1''),
                                  mkTransition (js ''B'') [js ''C''] (js ''1'')]\<rparr>"

text \<open>
  A deterministic automaton with the composite state \<open>{,TRAP}\<close>, the composition of the
  state with the empty name and a state named \<open>TRAP\<close>.
\<close>

definition emptyNameDFA :: NFA where
  "emptyNameDFA = \<lparr>initialState = js ''S'', finalStates = [],
                    states = [js ''S'', js ''{,TRAP}'', js ''X'', js ''TRAP''], alphabet = [js ''0''],
                    transitions = [mkTransition (js ''S'') [js ''{,TRAP}''] (js ''0''),
                                   mkTransition (js ''{,TRAP}'') [js ''X''] (js ''0''),
                                   mkTransition (js ''X'') [js ''X''] (js ''0''),
                                   mkTransition (js ''TRAP'') [js ''TRAP''] (js ''0'')]\<rparr>"

text \<open>
  The cycle \<open>A -\<lambda>-> B\<close>, \<open>B -\<lambda>-> A\<close> in an automaton with the symbol \<open>1\<close>.
\<close>

definition cyclicNFA :: NFA where
  "cyclicNFA = \<lparr>initialState = js ''A'', finalStates = [js ''B''],
                 states = [js ''A'', js ''B''], alphabet = [js ''1''],
                 transitions = [mkTransition (js ''A'') [js ''B''] LAMBDA,
                                mkTransition (js ''B'') [js ''A''] LAMBDA,
                                mkTransition (js ''B'') [js ''B''] (js ''1'')]\<rparr>"

text \<open>
  An automaton object whose initial state \<open>A\<close> is final and has no epsilon transition,
  beside the cycle \<open>B -\<lambda>-> C\<close>, \<open>C -\<lambda>-> B\<close>.
\<close>

definition sideCycleObj :: NFA_obj where
  "sideCycleObj = \<lparr>obj_initialState = js ''A'', obj_finalStates = 0,
                 obj_states = [js ''A'', js ''B'', js ''C''], obj_alphabet = [js ''1''],
                 obj_transitions = [mkTransition (js ''A'') [js ''A''] (js ''1''),
                                    mkTransition (js ''B'') [js ''C''] LAMBDA,
                                    mkTransition (js ''C'') [js ''B''] LAMBDA]\<rparr>"

text \<open>A rank for \<open>lambdaFinalObj\<close>: its one epsilon transition leads from \<open>A\<close> to \<open>B\<close>.\<close>

definition rankA :: "jsstring \<Rightarrow> nat" where
  "rankA s = (if s = js ''A'' then 1 else 0)"

section \<open>Termination of the exploration loop\<close>

lemma set_pushNew: "set (pushNew xs acc) = set xs \<union> set acc"
  unfolding pushNew_def by (induction xs arbitrary: acc) auto

lemma distinct_pushNew: "distinct acc \<Longrightarrow> distinct (pushNew xs acc)"
  unfolding pushNew_def by (induction xs arbitrary: acc) auto

lemma findNextStates_props:
  "distinct (findNextStates s a ts) \<and> set (findNextStates s a ts) \<subseteq> (\<Union>t \<in> set ts. set (nextStates t))"
proof -
  have "distinct acc \<Longrightarrow> set acc \<subseteq> (\<Union>t \<in> set ts. set (nextStates t)) \<Longrightarrow> set us \<subseteq> set ts \<Longrightarrow>
        distinct (fold (\<lambda>t acc. pushNew (nextStates t) acc) us acc)
        \<and> set (fold (\<lambda>t acc. pushNew (nextStates t) acc) us acc) \<subseteq> (\<Union>t \<in> set ts. set (nextStates t))"
    for us acc
  proof (induction us arbitrary: acc)
    case Nil then show ?case by simp
  next
    case (Cons u us)
    have "distinct (pushNew (nextStates u) acc)" using Cons.prems(1) by (rule distinct_pushNew)
    moreover have "set (pushNew (nextStates u) acc) \<subseteq> (\<Union>t \<in> set ts. set (nextStates t))"
      using Cons.prems by (auto simp: set_pushNew)
    moreover have "set us \<subseteq> set ts" using Cons.prems by simp
    ultimately show ?case using Cons.IH by simp
  qed
  from this[of "[]" "filter (\<lambda>t. state t = s \<and> symbol t = a) ts"]
  show ?thesis unfolding findNextStates_def by auto
qed

lemma nextStatesUnion_props:
  "distinct (nextStatesUnion nfa sts a) \<and> set (nextStatesUnion nfa sts a) \<subseteq> targets nfa"
proof -
  have "distinct acc \<Longrightarrow> set acc \<subseteq> targets nfa \<Longrightarrow>
        distinct (fold (\<lambda>s acc. pushNew (findNextStates s a (transitions nfa)) acc) us acc)
        \<and> set (fold (\<lambda>s acc. pushNew (findNextStates s a (transitions nfa)) acc) us acc) \<subseteq> targets nfa"
    for us acc
  proof (induction us arbitrary: acc)
    case Nil then show ?case by simp
  next
    case (Cons u us)
    have "distinct (pushNew (findNextStates u a (transitions nfa)) acc)"
      using Cons.prems(1) by (rule distinct_pushNew)
    moreover have "set (pushNew (findNextStates u a (transitions nfa)) acc) \<subseteq> targets nfa"
      using Cons.prems(2) findNextStates_props[of u a "transitions nfa"]
      by (auto simp: set_pushNew targets_def)
    ultimately show ?case using Cons.IH by simp
  qed
  from this[of "[]" sts] show ?thesis unfolding nextStatesUnion_def by simp
qed

lemma finite_targets: "finite (targets nfa)"
  unfolding targets_def by simp

lemma finite_candidates: "finite (candidates nfa)"
proof -
  let ?L = "{xs. set xs \<subseteq> targets nfa \<and> length xs \<le> card (targets nfa)}"
  have fin: "finite ?L" using finite_targets by (rule finite_lists_length_le)
  have "candidates nfa \<subseteq> (\<lambda>xs. the (combineStates (map Some xs))) ` ?L"
  proof
    fix c assume "c \<in> candidates nfa"
    then obtain xs where xs: "distinct xs" "set xs \<subseteq> targets nfa" "combineStates (map Some xs) = Some c"
      unfolding candidates_def by blast
    have "length xs = card (set xs)" using xs(1) by (simp add: distinct_card)
    also have "\<dots> \<le> card (targets nfa)" using xs(2) finite_targets by (simp add: card_mono)
    finally have "xs \<in> ?L" using xs(2) by simp
    moreover have "c = the (combineStates (map Some xs))" using xs(3) by simp
    ultimately show "c \<in> (\<lambda>xs. the (combineStates (map Some xs))) ` ?L" by blast
  qed
  then show ?thesis using fin by (meson finite_imageI finite_subset)
qed

lemma exploreSymbol_cases:
  "(stack (exploreSymbol nfa s sts a b) = stack b
      \<and> set (dfaStates b) \<subseteq> set (dfaStates (exploreSymbol nfa s sts a b)))
   \<or> (\<exists>c. c \<in> candidates nfa \<and> c \<notin> set (dfaStates b)
          \<and> stack (exploreSymbol nfa s sts a b) = stack b @ [c]
          \<and> dfaStates (exploreSymbol nfa s sts a b) = dfaStates b @ [c])"
proof (cases "truthy (combineStates (map Some (nextStatesUnion nfa sts a)))")
  case False
  then show ?thesis by (auto simp: exploreSymbol_def addTrap_def Let_def)
next
  case True
  then obtain c where c: "combineStates (map Some (nextStatesUnion nfa sts a)) = Some c"
    by (auto simp: truthy_def split: option.splits)
  then have "c \<in> candidates nfa"
    unfolding candidates_def using nextStatesUnion_props[of nfa sts a] by blast
  with True c show ?thesis by (auto simp: exploreSymbol_def Let_def)
qed

lemma exploreSymbol_unexplored:
  "unexplored nfa (exploreSymbol nfa s sts a b) \<le> unexplored nfa b"
  using exploreSymbol_cases[of nfa s sts a b]
proof
  assume h: "stack (exploreSymbol nfa s sts a b) = stack b
      \<and> set (dfaStates b) \<subseteq> set (dfaStates (exploreSymbol nfa s sts a b))"
  then have "candidates nfa - set (dfaStates (exploreSymbol nfa s sts a b)) \<subseteq> candidates nfa - set (dfaStates b)"
    by blast
  then have "card (candidates nfa - set (dfaStates (exploreSymbol nfa s sts a b))) \<le> card (candidates nfa - set (dfaStates b))"
    using finite_candidates by (simp add: card_mono)
  with h show ?thesis by (simp add: unexplored_def)
next
  assume "\<exists>c. c \<in> candidates nfa \<and> c \<notin> set (dfaStates b)
          \<and> stack (exploreSymbol nfa s sts a b) = stack b @ [c]
          \<and> dfaStates (exploreSymbol nfa s sts a b) = dfaStates b @ [c]"
  then obtain c where c: "c \<in> candidates nfa" "c \<notin> set (dfaStates b)"
     "stack (exploreSymbol nfa s sts a b) = stack b @ [c]"
     "dfaStates (exploreSymbol nfa s sts a b) = dfaStates b @ [c]" by blast
  have "candidates nfa - set (dfaStates b @ [c]) = (candidates nfa - set (dfaStates b)) - {c}" by auto
  moreover have "c \<in> candidates nfa - set (dfaStates b)" using c by simp
  ultimately have "card (candidates nfa - set (dfaStates b @ [c])) < card (candidates nfa - set (dfaStates b))"
    using finite_candidates by (metis card_Diff1_less finite_Diff)
  with c show ?thesis by (simp add: unexplored_def)
qed

lemma fold_exploreSymbol_unexplored:
  "unexplored nfa (fold (exploreSymbol nfa s sts) as b) \<le> unexplored nfa b"
proof (induction as arbitrary: b)
  case Nil show ?case by simp
next
  case (Cons a as)
  have "unexplored nfa (fold (exploreSymbol nfa s sts) as (exploreSymbol nfa s sts a b))
          \<le> unexplored nfa (exploreSymbol nfa s sts a b)" by (rule Cons.IH)
  also have "\<dots> \<le> unexplored nfa b" by (rule exploreSymbol_unexplored)
  finally show ?case by simp
qed

lemma exploreState_unexplored: "unexplored nfa (exploreState nfa s b) \<le> unexplored nfa b"
  unfolding exploreState_def by (rule fold_exploreSymbol_unexplored)

termination subsetLoop
proof (relation "measure (\<lambda>(nfa, stop, b). unexplored nfa b)")
  show "wf (measure (\<lambda>(nfa, stop, b). unexplored nfa b))" by simp
next
  fix nfa :: NFA and stepCounterStop :: int and b :: Build and x xa
  assume ne: "stack b \<noteq> []"
    and x: "x = last (stack b)"
    and xa: "xa = b\<lparr>stack := butlast (stack b), stepCounter := stepCounter b + 1\<rparr>"
  have "unexplored nfa (exploreState nfa x xa) \<le> unexplored nfa xa"
    by (rule exploreState_unexplored)
  also have "\<dots> < unexplored nfa b"
    using ne by (simp add: xa unexplored_def)
  finally show "((nfa, stepCounterStop, exploreState nfa x xa), nfa, stepCounterStop, b)
        \<in> measure (\<lambda>(nfa, stop, b). unexplored nfa b)" by simp
qed

section \<open>Properties of the codec\<close>

lemmas js_simps = js_def LBRACE_def RBRACE_def COMMA_def LAMBDA_def TRAP_def

lemma js_punctuation: "js ''{,}'' = [LBRACE, COMMA, RBRACE]"
  by (simp add: js_simps)

lemma trim_LAMBDA: "trim LAMBDA = LAMBDA"
  by (simp add: trim_def LAMBDA_def isWhiteSpace_def)

lemma sort_eq_Nil: "sort ys = [] \<longleftrightarrow> ys = []"
  by (metis length_0_conv length_sort)

lemma combineStates_cases:
  "combineStates xs =
     (case sort (nonNull xs) of
        [] \<Rightarrow> None
      | [x] \<Rightarrow> Some x
      | zs \<Rightarrow> Some ([LBRACE] @ join zs COMMA @ [RBRACE]))"
proof -
  define ys where "ys = nonNull xs"
  show ?thesis
  proof (cases "sort ys")
    case Nil
    then have "ys = []" by (simp add: sort_eq_Nil)
    then show ?thesis by (simp add: combineStates_def ys_def[symmetric])
  next
    case (Cons z zs)
    then have ne: "ys \<noteq> []" using sort_eq_Nil by fastforce
    show ?thesis
    proof (cases zs)
      case Nil
      with Cons ne show ?thesis by (simp add: combineStates_def ys_def[symmetric] Let_def)
    next
      case (Cons z' zs')
      with \<open>sort ys = z # zs\<close> ne show ?thesis
        by (simp add: combineStates_def ys_def[symmetric] Let_def)
    qed
  qed
qed

text \<open>
  Claim C5, as the specification states it, fails: \<open>combineStates\<close> does not remove
  duplicates.  For the input \<open>['A', 'A', 'B']\<close> it returns \<open>'{A,A,B}'\<close>, where the
  composition of the specification gives \<open>'{A,B}'\<close>.
\<close>

theorem combineStates_duplicates_counterexample:
  "combineStates [Some (js ''A''), Some (js ''A''), Some (js ''B'')] = Some (js ''{A,A,B}'')
   \<and> combineStates [Some (js ''A''), Some (js ''A''), Some (js ''B'')]
       \<noteq> compose_spec [Some (js ''A''), Some (js ''A''), Some (js ''B'')]"
  by (simp add: combineStates_def compose_spec_def js_simps nonNull_def)

text \<open>
  Claim C5, amended: \<open>combineStates\<close> drops the \<open>null\<close>/\<open>undefined\<close> entries and sorts the
  rest; it returns \<open>null\<close> when nothing remains, the single member unchanged when one
  remains, and otherwise the sorted members, every duplicate kept, joined by commas
  between the brackets.  On an input whose non-null entries are pairwise distinct this is
  the sorted, deduplicated composition of the specification.
\<close>

theorem combineStates_amended:
  "combineStates xs =
     (case sort (nonNull xs) of
        [] \<Rightarrow> None
      | [x] \<Rightarrow> Some x
      | zs \<Rightarrow> Some ([LBRACE] @ join zs COMMA @ [RBRACE]))
   \<and> (distinct (nonNull xs) \<longrightarrow> combineStates xs = compose_spec xs)"
proof (intro conjI impI)
  show "combineStates xs =
     (case sort (nonNull xs) of
        [] \<Rightarrow> None
      | [x] \<Rightarrow> Some x
      | zs \<Rightarrow> Some ([LBRACE] @ join zs COMMA @ [RBRACE]))"
    by (rule combineStates_cases)
next
  assume d: "distinct (nonNull xs)"
  then have "distinct (sort (nonNull xs))" by simp
  then have r: "remdups (sort (nonNull xs)) = sort (nonNull xs)"
    by (rule distinct_remdups_id)
  show "combineStates xs = compose_spec xs"
  proof (cases "sort (nonNull xs)")
    case Nil
    then show ?thesis by (simp add: combineStates_cases compose_spec_def)
  next
    case (Cons z zs)
    note outer = Cons
    show ?thesis
    proof (cases zs)
      case Nil
      with outer show ?thesis by (simp add: combineStates_cases compose_spec_def)
    next
      case (Cons z' zs')
      with outer r have "remdups (z # z' # zs') = z # z' # zs'" by simp
      with outer Cons show ?thesis
        by (simp only: combineStates_cases compose_spec_def list.case)
    qed
  qed
qed

theorem combineStates_amended_witness:
  "distinct (nonNull [Some (js ''B''), None, Some (js ''A'')])
   \<and> combineStates [Some (js ''B''), None, Some (js ''A'')] = Some (js ''{A,B}'')
   \<and> compose_spec [Some (js ''B''), None, Some (js ''A'')] = Some (js ''{A,B}'')"
  using combineStates_amended [of "[Some (js ''B''), None, Some (js ''A'')]"]
  by (simp add: js_simps compose_spec_def nonNull_def)

text \<open>
  Claim C6 on the code: for the simple identifier \<open>'q10'\<close>, \<open>separateStates\<close> returns the
  string \<open>'q10'\<close> itself and not the one-element array \<open>['q10']\<close>, so that \<open>includes\<close> on
  the result is a substring test, which \<open>'q1'\<close> passes.
\<close>

theorem separateStates_simple_is_string:
  "separateStates (js ''q10'') = Str (js ''q10'')
   \<and> separateStates (js ''q10'') \<noteq> Arr [js ''q10'']
   \<and> includes_js (separateStates (js ''q10'')) (js ''q1'')"
  by (simp add: separateStates_def isMultiState_def startsWith_def endsWith_def js_simps)

text \<open>
  The composite half of the decomposition: for two or more members without a comma,
  \<open>separateStates\<close> returns the sorted members of which \<open>combineStates\<close> built the
  identifier.
\<close>

lemma split_nonempty: "split s c \<noteq> []"
  by (induction s) (auto split: list.splits)

lemma split_no_separator: "c \<notin> set y \<Longrightarrow> split y c = [y]"
  by (induction y) auto

lemma split_append_separator: "c \<notin> set y \<Longrightarrow> split (y @ c # rest) c = y # split rest c"
  by (induction y) (auto split: list.splits simp: split_nonempty)

lemma split_join:
  "ys \<noteq> [] \<Longrightarrow> \<forall>y \<in> set ys. c \<notin> set y \<Longrightarrow> split (join ys c) c = ys"
proof (induction ys c rule: join.induct)
  case (1 c) then show ?case by simp
next
  case (2 x c) then show ?case by (simp add: split_no_separator)
next
  case (3 x y ys c)
  then show ?case by (simp add: split_append_separator)
qed

lemma separateStates_combineStates:
  assumes "length ys \<ge> 2" and "\<forall>y \<in> set ys. COMMA \<notin> set y"
  shows "\<exists>c. combineStates (map Some ys) = Some c \<and> separateStates c = Arr (sort ys)"
proof -
  have nn: "nonNull (map Some ys) = ys" by (induction ys) (auto simp: nonNull_def)
  have len: "length (sort ys) \<ge> 2" using assms(1) by simp
  then obtain z z' zs where z: "sort ys = z # z' # zs"
    by (metis Suc_le_length_iff numeral_2_eq_2)
  have cm: "\<forall>y \<in> set (sort ys). COMMA \<notin> set y" using assms(2) by simp
  have c: "combineStates (map Some ys) = Some ([LBRACE] @ join (sort ys) COMMA @ [RBRACE])"
    by (simp add: combineStates_cases nn z)
  have "separateStates ([LBRACE] @ join (sort ys) COMMA @ [RBRACE])
          = Arr (split (join (sort ys) COMMA) COMMA)"
    by (simp add: separateStates_def isMultiState_def startsWith_def endsWith_def substring_def)
  also have "split (join (sort ys) COMMA) COMMA = sort ys"
    using cm z by (intro split_join) auto
  finally show ?thesis using c by simp
qed

section \<open>Properties of the closure engine\<close>

lemma fetch_E_Closure_chain:
  "fetch_E_Closure 2 (js ''A'') [mkTransition (js ''A'') [js ''B''] LAMBDA]
     = Some [js ''A'', js ''B'']"
  by (simp add: numeral_2_eq_2 mkTransition_def trim_LAMBDA isEpsilon_def js_def pushNew_def)

lemma fetch_E_Closure_selfloop:
  "fetch_E_Closure 1 (js ''A'') [mkTransition (js ''A'') [js ''A''] LAMBDA] = Some [js ''A'']"
  by (simp add: mkTransition_def trim_LAMBDA isEpsilon_def js_def pushNew_def)

text \<open>
  A closure that is found within some depth is found, and is the same, within any greater
  depth: the bound has no influence on the result, only on whether there is one.
\<close>

lemma forEachOpt_mono:
  assumes "forEachOpt xs f acc = Some r"
    and "\<And>x a a'. x \<in> set xs \<Longrightarrow> f x a = Some a' \<Longrightarrow> g x a = Some a'"
  shows "forEachOpt xs g acc = Some r"
  using assms
proof (induction xs arbitrary: acc)
  case Nil then show ?case by simp
next
  case (Cons x xs)
  from Cons.prems(1) obtain a' where a': "f x acc = Some a'" "forEachOpt xs f a' = Some r"
    by (auto split: option.splits)
  have "g x acc = Some a'" using Cons.prems(2)[of x acc a'] a'(1) by simp
  moreover have "forEachOpt xs g a' = Some r"
    using Cons.IH[OF a'(2)] Cons.prems(2) by (meson list.set_intros(2))
  ultimately show ?case by simp
qed

lemma fetch_E_Closure_deeper:
  "fetch_E_Closure d s ts = Some r \<Longrightarrow> fetch_E_Closure (Suc d) s ts = Some r"
proof (induction d arbitrary: s r)
  case 0 then show ?case by simp
next
  case (Suc d)
  define visit where "visit k = (\<lambda>nextState eClosure.
       if nextState \<in> set eClosure then Some eClosure
       else case fetch_E_Closure k nextState ts of None \<Rightarrow> None
            | Some subEClosure \<Rightarrow> Some (pushNew subEClosure (eClosure @ [nextState])))" for k
  define body where "body k = (\<lambda>(t::Transition) eClosure.
       if isEpsilon (trim (symbol t)) \<and> s = state t
       then forEachOpt (nextStates t) (visit k) eClosure else Some eClosure)" for k
  have unfold: "fetch_E_Closure (Suc k) s ts = forEachOpt ts (body k) [s]" for k
    unfolding body_def visit_def by (rule fetch_E_Closure.simps(2))
  have visit_deeper: "visit (Suc d) x acc = Some acc'" if v: "visit d x acc = Some acc'" for x acc acc'
  proof (cases "x \<in> set acc")
    case True
    with v show ?thesis by (simp add: visit_def del: fetch_E_Closure.simps)
  next
    case False
    with v obtain sub where sub: "fetch_E_Closure d x ts = Some sub"
      and acc': "acc' = pushNew sub (acc @ [x])"
      by (auto simp: visit_def split: option.splits)
    from Suc.IH[OF sub] False acc' show ?thesis
      by (simp add: visit_def del: fetch_E_Closure.simps)
  qed
  have body_deeper: "body (Suc d) t acc = Some acc'" if b: "body d t acc = Some acc'" for t acc acc'
  proof (cases "isEpsilon (trim (symbol t)) \<and> s = state t")
    case False
    with b show ?thesis by (auto simp: body_def)
  next
    case True
    with b have "forEachOpt (nextStates t) (visit d) acc = Some acc'" by (simp add: body_def)
    then have "forEachOpt (nextStates t) (visit (Suc d)) acc = Some acc'"
      by (rule forEachOpt_mono) (rule visit_deeper)
    with True show ?thesis by (simp add: body_def)
  qed
  from Suc.prems have "forEachOpt ts (body d) [s] = Some r" by (simp only: unfold)
  then have "forEachOpt ts (body (Suc d)) [s] = Some r"
    by (rule forEachOpt_mono) (rule body_deeper)
  then show ?case by (simp only: unfold)
qed

lemma fetch_E_Closure_fuel_independent:
  assumes "fetch_E_Closure d s ts = Some r" and "d \<le> d'"
  shows "fetch_E_Closure d' s ts = Some r"
proof -
  have "fetch_E_Closure (d + k) s ts = Some r" for k
    by (induction k) (use assms(1) fetch_E_Closure_deeper in \<open>auto simp del: fetch_E_Closure.simps\<close>)
  from this[of "d' - d"] assms(2) show ?thesis by simp
qed

text \<open>
  Claim C2 on the code: on the cycle \<open>A -\<lambda>-> B\<close>, \<open>B -\<lambda>-> A\<close> the closure of \<open>A\<close> calls
  the closure of \<open>B\<close>, which starts from the fresh list \<open>[B]\<close> and calls the closure of \<open>A\<close>
  again.  Whatever the bound on the depth of the recursion, the call does not return.
\<close>

theorem fetch_E_Closure_cycle_never_returns:
  "fetch_E_Closure d (js ''A'') cyclicEpsilon = None
   \<and> fetch_E_Closure d (js ''B'') cyclicEpsilon = None"
proof (induction d)
  case 0
  show ?case by simp
next
  case (Suc d)
  then show ?case
    by (simp add: cyclicEpsilon_def mkTransition_def trim_LAMBDA isEpsilon_def js_def)
qed

lemma forEachOpt_invariant:
  assumes "forEachOpt xs f acc = Some r" and "I acc"
    and "\<And>x a a'. x \<in> set xs \<Longrightarrow> I a \<Longrightarrow> f x a = Some a' \<Longrightarrow> I a'"
  shows "I r"
  using assms
proof (induction xs arbitrary: acc)
  case Nil then show ?case by simp
next
  case (Cons x xs)
  from Cons.prems(1) obtain a' where a': "f x acc = Some a'" "forEachOpt xs f a' = Some r"
    by (auto split: option.splits)
  have "I a'" using Cons.prems(3)[of x acc a'] Cons.prems(2) a'(1) by simp
  moreover have "\<And>y a a''. y \<in> set xs \<Longrightarrow> I a \<Longrightarrow> f y a = Some a'' \<Longrightarrow> I a''"
    using Cons.prems(3) by (meson list.set_intros(2))
  ultimately show ?case using Cons.IH[OF a'(2)] by blast
qed

lemma closeState_symbols:
  assumes "closeState d nfa s acc = Some acc'" and "\<forall>t \<in> set acc. symbol t \<in> set (alphabet nfa)"
  shows "\<forall>t \<in> set acc'. symbol t \<in> set (alphabet nfa)"
proof -
  from assms(1) obtain c where
    run: "forEachOpt (alphabet nfa) (\<lambda>a acc.
              case closeSymbol d nfa c a of
                None \<Rightarrow> None
              | Some symbolNextStates \<Rightarrow> Some (acc @ [mkTransition s symbolNextStates a])) acc = Some acc'"
    by (auto simp: closeState_def split: option.splits)
  show ?thesis
    by (rule forEachOpt_invariant[OF run, where I = "\<lambda>acc. \<forall>t \<in> set acc. symbol t \<in> set (alphabet nfa)"])
       (use assms(2) in \<open>auto simp: mkTransition_def split: option.splits\<close>)
qed

lemma closedTransitions_symbols:
  assumes "forEachOpt (states nfa) (closeState d nfa) [] = Some closed"
  shows "\<forall>t \<in> set closed. symbol t \<in> set (alphabet nfa)"
  by (rule forEachOpt_invariant[OF assms, where I = "\<lambda>acc. \<forall>t \<in> set acc. symbol t \<in> set (alphabet nfa)"])
     (use closeState_symbols in \<open>auto\<close>)

lemma lambdaClosureNFA_no_lambda_left:
  assumes "lambdaClosureNFA d nfa = Some nfa'" and "hasLambda nfa"
    and "\<not> list_ex isEpsilon (alphabet nfa)"
  shows "\<not> hasLambda nfa'"
proof -
  from assms(1,2) obtain closed where
    c: "forEachOpt (states nfa) (closeState d nfa) [] = Some closed" and t: "transitions nfa' = closed"
    by (auto simp: lambdaClosureNFA_def Let_def split: option.splits)
  from closedTransitions_symbols[OF c] assms(3) t show ?thesis
    by (auto simp: hasLambda_def list_ex_iff isEpsilon_def)
qed

text \<open>
  Claim C7: on an automaton whose alphabet holds no epsilon symbol (neither the empty
  string nor \<open>\<lambda>\<close>, as the data model requires), applying \<open>lambdaClosureNFA\<close> to its own
  result gives that result again, and an automaton without \<open>\<lambda>\<close>-transitions is returned
  unchanged.  Where the first application does not return, neither does the second.
\<close>

theorem lambdaClosureNFA_idempotent:
  assumes "\<not> list_ex isEpsilon (alphabet nfa)"
  shows "Option.bind (lambdaClosureNFA d nfa) (lambdaClosureNFA d') = lambdaClosureNFA d nfa
         \<and> (\<not> hasLambda nfa \<longrightarrow> lambdaClosureNFA d nfa = Some nfa)"
proof
  show "Option.bind (lambdaClosureNFA d nfa) (lambdaClosureNFA d') = lambdaClosureNFA d nfa"
  proof (cases "hasLambda nfa")
    case False
    then show ?thesis by (simp add: lambdaClosureNFA_def)
  next
    case True
    show ?thesis
    proof (cases "lambdaClosureNFA d nfa")
      case None then show ?thesis by simp
    next
      case (Some nfa')
      from lambdaClosureNFA_no_lambda_left[OF Some True assms]
      have "lambdaClosureNFA d' nfa' = Some nfa'" by (simp add: lambdaClosureNFA_def)
      with Some show ?thesis by simp
    qed
  qed
next
  show "\<not> hasLambda nfa \<longrightarrow> lambdaClosureNFA d nfa = Some nfa"
    by (simp add: lambdaClosureNFA_def)
qed

lemmas closure_simps = lambdaClosureNFA_def hasLambda_def closeState_def closeSymbol_def
  findNextStates_def pushNew_def isEpsilon_def trim_def isWhiteSpace_def mkTransition_def
  js_def LAMBDA_def Let_def numeral_2_eq_2

lemma lambdaClosureNFA_lambdaNFA:
  "lambdaClosureNFA 2 lambdaNFA =
     Some \<lparr>initialState = js ''A'', finalStates = [js ''C''],
           states = [js ''A'', js ''B'', js ''C''], alphabet = [js ''1''],
           transitions = [mkTransition (js ''A'') [js ''C''] (js ''1''),
                          mkTransition (js ''B'') [js ''C''] (js ''1''),
                          mkTransition (js ''C'') [] (js ''1'')]\<rparr>"
  by (simp add: lambdaNFA_def closure_simps)

theorem lambdaClosureNFA_idempotent_witness:
  "\<not> list_ex isEpsilon (alphabet lambdaNFA)
   \<and> hasLambda lambdaNFA
   \<and> lambdaClosureNFA 2 lambdaNFA \<noteq> None
   \<and> Option.bind (lambdaClosureNFA 2 lambdaNFA) (lambdaClosureNFA 2) = lambdaClosureNFA 2 lambdaNFA
   \<and> \<not> hasLambda (the (lambdaClosureNFA 2 lambdaNFA))
   \<and> lambdaClosureNFA 2 (the (lambdaClosureNFA 2 lambdaNFA)) = Some (the (lambdaClosureNFA 2 lambdaNFA))"
proof -
  have a: "\<not> list_ex isEpsilon (alphabet lambdaNFA)"
    by (simp add: lambdaNFA_def isEpsilon_def js_def LAMBDA_def)
  have h: "hasLambda lambdaNFA"
    by (simp add: lambdaNFA_def hasLambda_def mkTransition_def)
  have n: "\<not> hasLambda (the (lambdaClosureNFA 2 lambdaNFA))"
    by (simp add: lambdaClosureNFA_lambdaNFA) (simp add: hasLambda_def mkTransition_def js_def LAMBDA_def)
  from lambdaClosureNFA_idempotent [OF a, of 2 2]
       lambdaClosureNFA_idempotent [of "the (lambdaClosureNFA 2 lambdaNFA)" 2 2]
  show ?thesis using a h n by (simp add: lambdaClosureNFA_lambdaNFA js_def isEpsilon_def LAMBDA_def)
qed

lemma fetch_E_Closure_contains_state:
  assumes "fetch_E_Closure d s ts = Some c"
  shows "s \<in> set c"
proof -
  from assms obtain d' where d: "d = Suc d'" by (cases d) auto
  have inner: "\<And>ns f acc r. forEachOpt ns
           (\<lambda>nextState eClosure.
               if nextState \<in> set eClosure then Some eClosure
               else (case fetch_E_Closure d' nextState ts of
                       None \<Rightarrow> None
                     | Some subEClosure \<Rightarrow> Some (pushNew subEClosure (eClosure @ [nextState]))))
           acc = Some r \<Longrightarrow> s \<in> set acc \<Longrightarrow> s \<in> set r"
    by (erule forEachOpt_invariant[where I = "\<lambda>acc. s \<in> set acc"])
       (auto simp: set_pushNew split: if_splits option.splits)
  from assms[unfolded d] show ?thesis
    unfolding fetch_E_Closure.simps
    by (rule forEachOpt_invariant[where I = "\<lambda>acc. s \<in> set acc"])
       (auto split: if_splits dest: inner)
qed

lemma lambdaClosureNFA_heap_value:
  "map_option (\<lambda>(h', nfa'). deref h' nfa') (lambdaClosureNFA_heap d h nfa)
     = lambdaClosureNFA d (deref h nfa)"
  by (auto simp: lambdaClosureNFA_heap_def lambdaClosureNFA_def deref_def Let_def
           split: option.splits)

text \<open>
  Claim C10, as stated, fails for an automaton without \<open>\<lambda>\<close>-transitions:
  \<open>lambdaClosureNFA\<close> returns its argument before it looks at the closure of the initial
  state.  Here the initial state \<open>A\<close> is final and in its own closure, and the
  \<open>finalStates\<close> array stays \<open>[A]\<close>.
\<close>

theorem lambdaClosureNFA_heap_no_lambda_counterexample:
  "fetch_E_Closure 1 (obj_initialState plainFinalObj) (obj_transitions plainFinalObj) = Some [js ''A'']
   \<and> list_ex (\<lambda>fs. fs \<in> set [js ''A'']) (heapA (obj_finalStates plainFinalObj))
   \<and> lambdaClosureNFA_heap 1 heapA plainFinalObj = Some (heapA, plainFinalObj)
   \<and> heapA (obj_finalStates plainFinalObj)
        \<noteq> heapA (obj_finalStates plainFinalObj) @ [obj_initialState plainFinalObj]"
  by (simp add: plainFinalObj_def heapA_def lambdaClosureNFA_heap_def deref_def closure_simps)

text \<open>
  What a call that returns has done to the store and which array the result refers to.
\<close>

lemma lambdaClosureNFA_heap_effect:
  assumes "hasLambda (deref h nfa)"
    and "lambdaClosureNFA_heap d h nfa = Some (h', nfa')"
  shows "obj_finalStates nfa' = obj_finalStates nfa
     \<and> (\<forall>a. a \<noteq> obj_finalStates nfa \<longrightarrow> h' a = h a)
     \<and> (\<exists>c. fetch_E_Closure d (obj_initialState nfa) (obj_transitions nfa) = Some c
            \<and> obj_initialState nfa \<in> set c
            \<and> h' (obj_finalStates nfa) =
                (if list_ex (\<lambda>fs. fs \<in> set c) (h (obj_finalStates nfa))
                 then h (obj_finalStates nfa) @ [obj_initialState nfa]
                 else h (obj_finalStates nfa)))
     \<and> (obj_initialState nfa \<in> set (h (obj_finalStates nfa)) \<longrightarrow>
          h' (obj_finalStates nfa) = h (obj_finalStates nfa) @ [obj_initialState nfa]
          \<and> \<not> distinct (h' (obj_finalStates nfa)))"
proof -
  from assms obtain closed c where
    c: "fetch_E_Closure d (obj_initialState nfa) (obj_transitions nfa) = Some c"
    and hp: "h' = (if list_ex (\<lambda>fs. fs \<in> set c) (h (obj_finalStates nfa))
                   then h(obj_finalStates nfa := h (obj_finalStates nfa) @ [obj_initialState nfa])
                   else h)"
    and np: "nfa' = \<lparr>obj_initialState = obj_initialState nfa,
                            obj_finalStates = obj_finalStates nfa,
                            obj_states = obj_states nfa,
                            obj_alphabet = obj_alphabet nfa,
                            obj_transitions = closed\<rparr>"
    by (auto simp: lambdaClosureNFA_heap_def Let_def split: option.splits)
  have init: "obj_initialState nfa \<in> set c"
    using c by (rule fetch_E_Closure_contains_state)
  have same: "obj_finalStates nfa' = obj_finalStates nfa" by (simp add: np)
  have frame: "\<forall>a. a \<noteq> obj_finalStates nfa \<longrightarrow> h' a = h a" by (simp add: hp)
  have upd: "h' (obj_finalStates nfa) =
                (if list_ex (\<lambda>fs. fs \<in> set c) (h (obj_finalStates nfa))
                 then h (obj_finalStates nfa) @ [obj_initialState nfa]
                 else h (obj_finalStates nfa))" by (simp add: hp)
  have dup: "obj_initialState nfa \<in> set (h (obj_finalStates nfa)) \<longrightarrow>
          h' (obj_finalStates nfa) = h (obj_finalStates nfa) @ [obj_initialState nfa]
          \<and> \<not> distinct (h' (obj_finalStates nfa))"
  proof
    assume f: "obj_initialState nfa \<in> set (h (obj_finalStates nfa))"
    with init have "list_ex (\<lambda>fs. fs \<in> set c) (h (obj_finalStates nfa))"
      by (auto simp: list_ex_iff)
    with upd f show "h' (obj_finalStates nfa) = h (obj_finalStates nfa) @ [obj_initialState nfa]
          \<and> \<not> distinct (h' (obj_finalStates nfa))" by simp
  qed
  from same frame c init upd dup show ?thesis by blast
qed

text \<open>
  Where the epsilon transitions are ranked and the depth exceeds every rank, each closure
  is found, and with it \<open>lambdaClosureNFA\<close> returns.
\<close>

lemma forEachOpt_returns:
  assumes "I acc"
    and "\<And>x a. x \<in> set xs \<Longrightarrow> I a \<Longrightarrow> \<exists>a'. f x a = Some a' \<and> I a'"
  shows "\<exists>r. forEachOpt xs f acc = Some r \<and> I r"
  using assms
proof (induction xs arbitrary: acc)
  case Nil then show ?case by simp
next
  case (Cons x xs)
  from Cons.prems(2)[of x acc] Cons.prems(1) obtain a' where a': "f x acc = Some a'" "I a'"
    by auto
  have "\<And>y a. y \<in> set xs \<Longrightarrow> I a \<Longrightarrow> \<exists>a'. f y a = Some a' \<and> I a'"
    using Cons.prems(2) by (meson list.set_intros(2))
  from Cons.IH[OF a'(2) this] a'(1) show ?case by simp
qed

lemma fetch_E_Closure_acyclic_returns:
  assumes "epsilonRanked rank ts"
  shows "rank s < d \<Longrightarrow> \<exists>c. fetch_E_Closure d s ts = Some c"
proof (induction d arbitrary: s)
  case 0 then show ?case by simp
next
  case (Suc d)
  define visit where "visit = (\<lambda>nextState eClosure.
       if nextState \<in> set eClosure then Some eClosure
       else case fetch_E_Closure d nextState ts of None \<Rightarrow> None
            | Some subEClosure \<Rightarrow> Some (pushNew subEClosure (eClosure @ [nextState])))"
  define body where "body = (\<lambda>(t::Transition) eClosure.
       if isEpsilon (trim (symbol t)) \<and> s = state t
       then forEachOpt (nextStates t) visit eClosure else Some eClosure)"
  have unfold: "fetch_E_Closure (Suc d) s ts = forEachOpt ts body [s]"
    unfolding body_def visit_def by (rule fetch_E_Closure.simps(2))
  have visit_ok: "\<exists>a'. visit n a = Some a' \<and> s \<in> set a'"
    if t: "t \<in> set ts" "isEpsilon (trim (symbol t))" "s = state t"
      and n: "n \<in> set (nextStates t)" and a: "s \<in> set a" for t n a
  proof (cases "n \<in> set a")
    case True
    with a show ?thesis by (simp add: visit_def)
  next
    case False
    with a have "n \<noteq> state t" using t(3) by auto
    with assms t n have "rank n < rank s" unfolding epsilonRanked_def by blast
    with Suc.prems have "rank n < d" by simp
    from Suc.IH[OF this] obtain sub where "fetch_E_Closure d n ts = Some sub" by blast
    with False a show ?thesis by (simp add: visit_def set_pushNew)
  qed
  have body_ok: "\<exists>a'. body t a = Some a' \<and> s \<in> set a'" if t: "t \<in> set ts" and a: "s \<in> set a" for t a
  proof (cases "isEpsilon (trim (symbol t)) \<and> s = state t")
    case False
    with a show ?thesis by (auto simp: body_def)
  next
    case True
    have "\<exists>r. forEachOpt (nextStates t) visit a = Some r \<and> s \<in> set r"
      by (rule forEachOpt_returns[where I = "\<lambda>a. s \<in> set a"])
         (use a t True visit_ok in \<open>auto\<close>)
    with True show ?thesis by (simp add: body_def)
  qed
  have "\<exists>r. forEachOpt ts body [s] = Some r \<and> s \<in> set r"
    by (rule forEachOpt_returns[where I = "\<lambda>a. s \<in> set a"]) (use body_ok in \<open>auto\<close>)
  then show ?case by (auto simp only: unfold)
qed

lemma closeSymbol_returns:
  assumes "\<forall>s. \<exists>c. fetch_E_Closure d s (transitions nfa) = Some c"
  shows "\<exists>r. closeSymbol d nfa stateClosure a = Some r"
proof -
  have inner: "\<exists>r. forEachOpt ns
              (\<lambda>nextState symbolNextStates.
                 case fetch_E_Closure d nextState (transitions nfa) of
                   None \<Rightarrow> None
                 | Some closure \<Rightarrow> Some (pushNew closure symbolNextStates)) acc = Some r \<and> True"
    for ns acc
    by (rule forEachOpt_returns[where I = "\<lambda>_. True"]) (use assms in \<open>auto split: option.splits\<close>)
  have "\<exists>r. forEachOpt stateClosure (\<lambda>closureState symbolNextStates.
            forEachOpt (findNextStates closureState a (transitions nfa))
              (\<lambda>nextState symbolNextStates.
                 case fetch_E_Closure d nextState (transitions nfa) of
                   None \<Rightarrow> None
                 | Some closure \<Rightarrow> Some (pushNew closure symbolNextStates))
              symbolNextStates) [] = Some r \<and> True"
    by (rule forEachOpt_returns[where I = "\<lambda>_. True"]) (use inner in \<open>auto\<close>)
  then show ?thesis by (auto simp: closeSymbol_def)
qed

lemma closeState_returns:
  assumes "\<forall>s. \<exists>c. fetch_E_Closure d s (transitions nfa) = Some c"
  shows "\<exists>r. closeState d nfa s acc = Some r"
proof -
  from assms obtain c where c: "fetch_E_Closure d s (transitions nfa) = Some c" by blast
  have "\<exists>r. forEachOpt (alphabet nfa) (\<lambda>a acc.
              case closeSymbol d nfa c a of
                None \<Rightarrow> None
              | Some symbolNextStates \<Rightarrow> Some (acc @ [mkTransition s symbolNextStates a])) acc = Some r \<and> True"
  proof (rule forEachOpt_returns[where I = "\<lambda>_. True"])
    fix x a
    from closeSymbol_returns[OF assms, of c x] obtain r where "closeSymbol d nfa c x = Some r" by blast
    then show "\<exists>a'. (case closeSymbol d nfa c x of None \<Rightarrow> None
              | Some symbolNextStates \<Rightarrow> Some (a @ [mkTransition s symbolNextStates x])) = Some a' \<and> True"
      by simp
  qed simp
  with c show ?thesis by (auto simp: closeState_def)
qed

lemma closedTransitions_returns:
  assumes "\<forall>s. \<exists>c. fetch_E_Closure d s (transitions nfa) = Some c"
  shows "\<exists>r. forEachOpt sts (closeState d nfa) acc = Some r"
proof -
  have "\<exists>r. forEachOpt sts (closeState d nfa) acc = Some r \<and> True"
    by (rule forEachOpt_returns[where I = "\<lambda>_. True"])
       (use closeState_returns[OF assms] in \<open>auto\<close>)
  then show ?thesis by blast
qed

lemma lambdaClosureNFA_returns:
  assumes "epsilonRanked rank (transitions nfa)" and "\<forall>s. rank s < d"
  shows "\<exists>nfa'. lambdaClosureNFA d nfa = Some nfa'"
proof -
  have all: "\<forall>s. \<exists>c. fetch_E_Closure d s (transitions nfa) = Some c"
    using fetch_E_Closure_acyclic_returns[OF assms(1)] assms(2) by blast
  from closedTransitions_returns[OF all, of "states nfa" "[]"] obtain closed where
    "forEachOpt (states nfa) (closeState d nfa) [] = Some closed" by blast
  moreover from all obtain c where
    "fetch_E_Closure d (initialState nfa) (transitions nfa) = Some c" by blast
  ultimately show ?thesis by (simp add: lambdaClosureNFA_def Let_def)
qed

lemma lambdaClosureNFA_heap_returns:
  assumes "epsilonRanked rank (obj_transitions nfa)" and "\<forall>s. rank s < d"
  shows "\<exists>h' nfa'. lambdaClosureNFA_heap d h nfa = Some (h', nfa')"
proof -
  have "epsilonRanked rank (transitions (deref h nfa))" using assms(1) by (simp add: deref_def)
  from lambdaClosureNFA_returns[OF this assms(2)] lambdaClosureNFA_heap_value[of d h nfa]
  show ?thesis by (cases "lambdaClosureNFA_heap d h nfa") auto
qed

text \<open>
  Claim C10, amended: when the automaton has a transition whose symbol is the empty
  string or \<open>\<lambda>\<close>, and its epsilon transitions form no cycle through two or more states,
  \<open>lambdaClosureNFA\<close> returns; the returned automaton refers to the same \<open>finalStates\<close>
  array as the argument and no other array of the store has changed.  The closure of the
  initial state contains the initial state; when it contains a final state, the initial
  state has been appended to that array.  So an initial state that is already final is
  appended again, and the array holds it twice.
\<close>

theorem lambdaClosureNFA_heap_appends_initialState:
  assumes "hasLambda (deref h nfa)"
    and "epsilonRanked rank (obj_transitions nfa)" and "\<forall>s. rank s < d"
  shows "\<exists>h' nfa' c.
       lambdaClosureNFA_heap d h nfa = Some (h', nfa')
     \<and> obj_finalStates nfa' = obj_finalStates nfa
     \<and> (\<forall>a. a \<noteq> obj_finalStates nfa \<longrightarrow> h' a = h a)
     \<and> fetch_E_Closure d (obj_initialState nfa) (obj_transitions nfa) = Some c
     \<and> obj_initialState nfa \<in> set c
     \<and> h' (obj_finalStates nfa) =
          (if list_ex (\<lambda>fs. fs \<in> set c) (h (obj_finalStates nfa))
           then h (obj_finalStates nfa) @ [obj_initialState nfa]
           else h (obj_finalStates nfa))
     \<and> (obj_initialState nfa \<in> set (h (obj_finalStates nfa)) \<longrightarrow>
          h' (obj_finalStates nfa) = h (obj_finalStates nfa) @ [obj_initialState nfa]
          \<and> \<not> distinct (h' (obj_finalStates nfa)))"
proof -
  from lambdaClosureNFA_heap_returns[OF assms(2,3), of h] obtain h' nfa' where
    r: "lambdaClosureNFA_heap d h nfa = Some (h', nfa')" by blast
  from lambdaClosureNFA_heap_effect[OF assms(1) r] r show ?thesis by blast
qed

lemma epsilonRanked_lambdaFinalObj: "epsilonRanked rankA (obj_transitions lambdaFinalObj)"
  by (simp add: epsilonRanked_def lambdaFinalObj_def rankA_def mkTransition_def js_def)

theorem lambdaClosureNFA_heap_appends_initialState_witness:
  "hasLambda (deref heapA lambdaFinalObj)
   \<and> epsilonRanked rankA (obj_transitions lambdaFinalObj) \<and> (\<forall>s. rankA s < 2)
   \<and> obj_initialState lambdaFinalObj \<in> set (heapA (obj_finalStates lambdaFinalObj))
   \<and> lambdaClosureNFA_heap 2 heapA lambdaFinalObj \<noteq> None
   \<and> fst (the (lambdaClosureNFA_heap 2 heapA lambdaFinalObj)) (obj_finalStates lambdaFinalObj)
        = [js ''A'', js ''A'']
   \<and> obj_finalStates (snd (the (lambdaClosureNFA_heap 2 heapA lambdaFinalObj)))
        = obj_finalStates lambdaFinalObj"
proof -
  have l: "hasLambda (deref heapA lambdaFinalObj)"
    by (simp add: lambdaFinalObj_def deref_def hasLambda_def mkTransition_def)
  have b: "\<forall>s. rankA s < 2" by (simp add: rankA_def)
  have f: "obj_initialState lambdaFinalObj \<in> set (heapA (obj_finalStates lambdaFinalObj))"
    by (simp add: lambdaFinalObj_def heapA_def)
  have h0: "heapA (obj_finalStates lambdaFinalObj) = [js ''A'']"
    and i0: "obj_initialState lambdaFinalObj = js ''A''"
    by (simp_all add: lambdaFinalObj_def heapA_def)
  from lambdaClosureNFA_heap_appends_initialState [OF l epsilonRanked_lambdaFinalObj b]
  obtain h' nfa' where
      r: "lambdaClosureNFA_heap 2 heapA lambdaFinalObj = Some (h', nfa')"
    and s: "obj_finalStates nfa' = obj_finalStates lambdaFinalObj"
    and d: "obj_initialState lambdaFinalObj \<in> set (heapA (obj_finalStates lambdaFinalObj)) \<longrightarrow>
          h' (obj_finalStates lambdaFinalObj)
            = heapA (obj_finalStates lambdaFinalObj) @ [obj_initialState lambdaFinalObj]"
    by blast
  from d f have "h' (obj_finalStates lambdaFinalObj) = [js ''A'', js ''A'']"
    by (simp add: h0 i0)
  with r s l b f epsilonRanked_lambdaFinalObj show ?thesis by simp
qed

text \<open>
  On a cycle of epsilon transitions the call does not return and appends nothing, also
  when the cycle is not reachable from the initial state: the closure of every listed
  state is computed first.
\<close>

lemma fetch_E_Closure_sideCycle:
  "fetch_E_Closure d (js ''B'') (obj_transitions sideCycleObj) = None
   \<and> fetch_E_Closure d (js ''C'') (obj_transitions sideCycleObj) = None"
proof (induction d)
  case 0 show ?case by simp
next
  case (Suc d)
  then show ?case
    by (simp add: sideCycleObj_def mkTransition_def trim_def isWhiteSpace_def LAMBDA_def
                  isEpsilon_def js_def)
qed

lemma lambdaClosureNFA_heap_sideCycle_never_returns:
  "hasLambda (deref heapA sideCycleObj)
   \<and> fetch_E_Closure (Suc d) (obj_initialState sideCycleObj) (obj_transitions sideCycleObj)
        = Some [js ''A'']
   \<and> js ''A'' \<in> set (heapA (obj_finalStates sideCycleObj))
   \<and> lambdaClosureNFA_heap d heapA sideCycleObj = None"
proof -
  have t: "obj_transitions sideCycleObj = transitions (deref heapA sideCycleObj)"
    by (simp add: deref_def)
  have "closeState d (deref heapA sideCycleObj) (js ''B'') acc = None" for acc
    using fetch_E_Closure_sideCycle[of d] by (simp add: closeState_def t[symmetric])
  moreover have "closeState d (deref heapA sideCycleObj) (js ''A'') [] = None \<or>
                 (\<exists>r. closeState d (deref heapA sideCycleObj) (js ''A'') [] = Some r)" by auto
  ultimately have "forEachOpt (obj_states sideCycleObj) (closeState d (deref heapA sideCycleObj)) [] = None"
    by (auto simp: sideCycleObj_def)
  moreover have "hasLambda (deref heapA sideCycleObj)"
    by (simp add: sideCycleObj_def deref_def hasLambda_def mkTransition_def)
  moreover have "fetch_E_Closure (Suc d) (obj_initialState sideCycleObj) (obj_transitions sideCycleObj)
        = Some [js ''A'']"
    by (simp add: sideCycleObj_def mkTransition_def trim_def isWhiteSpace_def LAMBDA_def
                  isEpsilon_def js_def)
  moreover have "js ''A'' \<in> set (heapA (obj_finalStates sideCycleObj))"
    by (simp add: sideCycleObj_def heapA_def)
  ultimately show ?thesis by (simp add: lambdaClosureNFA_heap_def)
qed

section \<open>Evaluation of the exploration loop\<close>

declare subsetLoop.simps [simp del]

lemma subsetLoop_empty: "stack b = [] \<Longrightarrow> subsetLoop nfa stop b = b"
  by (simp add: subsetLoop.simps)

lemma subsetLoop_interrupt:
  "stack b \<noteq> [] \<Longrightarrow> stepCounter b + 1 = stop \<Longrightarrow>
   subsetLoop nfa stop b = b\<lparr>stack := butlast (stack b), stepCounter := stop, stepInterrupt := True\<rparr>"
  by (simp add: subsetLoop.simps[of nfa stop b] Let_def)

lemma subsetLoop_explore:
  "stack b \<noteq> [] \<Longrightarrow> stepCounter b + 1 \<noteq> stop \<Longrightarrow>
   subsetLoop nfa stop b =
     subsetLoop nfa stop
       (exploreState nfa (last (stack b)) (b\<lparr>stack := butlast (stack b), stepCounter := stepCounter b + 1\<rparr>))"
  by (simp add: subsetLoop.simps[of nfa stop b] Let_def)

lemmas eval_simps = generateDFA_def lambdaClosureNFA_def hasLambda_def initialBuild_def
  subsetLoop_empty subsetLoop_interrupt subsetLoop_explore exploreState_def exploreSymbol_def
  addTrap_def nextStatesUnion_def findNextStates_def pushNew_def combineStates_def nonNull_def
  memberStates_def separateStates_def isMultiState_def startsWith_def endsWith_def substring_def
  slice_1_m1_def formatDotState_def isFinalState_def truthy_def mkTransition_def
  js_def LBRACE_def RBRACE_def COMMA_def LAMBDA_def TRAP_def Let_def sublist_code(3)

section \<open>Totality of the constructed automaton\<close>

lemma mkTransition_sel [simp]:
  "state (mkTransition s ns a) = s" "nextStates (mkTransition s ns a) = ns"
  "symbol (mkTransition s ns a) = a"
  by (simp_all add: mkTransition_def)

lemma mkTransition_inject [simp]:
  "mkTransition s ns a = mkTransition s' ns' a' \<longleftrightarrow> s = s' \<and> ns = ns' \<and> a = a'"
  by (auto simp: mkTransition_def)

lemma outgoing_append: "outgoing s a (ts @ us) = outgoing s a ts @ outgoing s a us"
  by (simp add: outgoing_def)

lemma outgoing_single:
  "outgoing s a [mkTransition s' ns a'] = (if s' = s \<and> a' = a then [mkTransition s' ns a'] else [])"
  by (simp add: outgoing_def)

lemma outgoing_no_source: "\<forall>t \<in> set ts. state t \<noteq> s \<Longrightarrow> outgoing s a ts = []"
  by (simp add: outgoing_def filter_empty_conv)

lemma filter_eq_distinct: "distinct xs \<Longrightarrow> a \<in> set xs \<Longrightarrow> filter (\<lambda>x. x = a) xs = [a]"
  by (induction xs) (auto simp: filter_empty_conv)

lemma outgoing_trap_loops:
  "outgoing s a (map (\<lambda>a'. mkTransition TRAP [TRAP] a') alph) =
     (if s = TRAP then map (\<lambda>a'. mkTransition TRAP [TRAP] a') (filter (\<lambda>x. x = a) alph) else [])"
  by (induction alph) (auto simp: outgoing_def)

lemma rowComplete_append_other:
  "rowComplete alph ts s \<Longrightarrow> \<forall>t \<in> set us. state t \<noteq> s \<Longrightarrow> rowComplete alph (ts @ us) s"
  by (simp add: rowComplete_def outgoing_append outgoing_no_source)

lemma rowInv_add_transition:
  assumes inv: "rowInv nfa s D b" and a: "a \<notin> D"
  shows "rowInv nfa s (insert a D) (b\<lparr>dfaTransitions := dfaTransitions b @ [mkTransition s [c] a]\<rparr>)"
proof -
  show ?thesis
    using inv a unfolding rowInv_def
    by (auto simp: outgoing_append outgoing_single intro!: rowComplete_append_other)
qed

lemma rowInv_push_state:
  assumes inv: "rowInv nfa s D b" and c: "c \<notin> set (dfaStates b)"
  shows "rowInv nfa s D (b\<lparr>dfaStates := dfaStates b @ [c], stack := stack b @ [c]\<rparr>)"
  using inv c unfolding rowInv_def by auto

lemma rowInv_add_trap:
  assumes inv: "rowInv nfa s D b" and t: "TRAP \<notin> set (dfaStates b)"
    and d: "distinct (alphabet nfa)"
  shows "rowInv nfa s D
           (b\<lparr>dfaTransitions := dfaTransitions b @ map (\<lambda>a'. mkTransition TRAP [TRAP] a') (alphabet nfa),
              dfaStates := dfaStates b @ [TRAP]\<rparr>)"
proof -
  from inv t have ne: "TRAP \<noteq> s" and ns: "TRAP \<notin> set (stack b)"
    unfolding rowInv_def by auto
  have srcs: "\<forall>t \<in> set (dfaTransitions b). state t \<noteq> TRAP"
    using inv t unfolding rowInv_def by auto
  have loops_src: "\<forall>t \<in> set (map (\<lambda>a'. mkTransition TRAP [TRAP] a') (alphabet nfa)). state t = TRAP"
    by (simp add: mkTransition_def)
  have trap_row: "rowComplete (alphabet nfa)
        (dfaTransitions b @ map (\<lambda>a'. mkTransition TRAP [TRAP] a') (alphabet nfa)) TRAP"
    unfolding rowComplete_def
    by (auto simp: outgoing_append outgoing_no_source[OF srcs] outgoing_trap_loops filter_eq_distinct[OF d])
  have other_row: "rowComplete (alphabet nfa)
        (dfaTransitions b @ map (\<lambda>a'. mkTransition TRAP [TRAP] a') (alphabet nfa)) s'"
    if "rowComplete (alphabet nfa) (dfaTransitions b) s'" "s' \<noteq> TRAP" for s'
    using that loops_src by (intro rowComplete_append_other) auto
  have s_row: "outgoing s a (dfaTransitions b @ map (\<lambda>a'. mkTransition TRAP [TRAP] a') (alphabet nfa))
               = outgoing s a (dfaTransitions b)" for a
    using ne by (simp add: outgoing_append outgoing_trap_loops)
  have rows: "\<forall>s' \<in> set (dfaStates b). s' \<notin> set (stack b) \<longrightarrow> s' \<noteq> s \<longrightarrow>
      rowComplete (alphabet nfa)
        (dfaTransitions b @ map (\<lambda>a'. mkTransition TRAP [TRAP] a') (alphabet nfa)) s'"
  proof (intro ballI impI)
    fix s' assume s': "s' \<in> set (dfaStates b)" "s' \<notin> set (stack b)" "s' \<noteq> s"
    then have "rowComplete (alphabet nfa) (dfaTransitions b) s'"
      using inv unfolding rowInv_def by blast
    moreover have "s' \<noteq> TRAP" using s'(1) t by auto
    ultimately show "rowComplete (alphabet nfa)
        (dfaTransitions b @ map (\<lambda>a'. mkTransition TRAP [TRAP] a') (alphabet nfa)) s'"
      by (rule other_row)
  qed
  show ?thesis
    unfolding rowInv_def
  proof (intro conjI)
    show "distinct (stack (b\<lparr>dfaTransitions := dfaTransitions b @ map (\<lambda>a'. mkTransition TRAP [TRAP] a') (alphabet nfa),
              dfaStates := dfaStates b @ [TRAP]\<rparr>))"
      using inv unfolding rowInv_def by simp
  qed (use inv t ns trap_row rows s_row in \<open>auto simp: rowInv_def\<close>)
qed

lemma exploreSymbol_rowInv:
  assumes inv: "rowInv nfa s D b" and a: "a \<notin> D" and d: "distinct (alphabet nfa)"
  shows "rowInv nfa s (insert a D) (exploreSymbol nfa s sts a b)"
proof (cases "truthy (combineStates (map Some (nextStatesUnion nfa sts a)))")
  case True
  define c where "c = the (combineStates (map Some (nextStatesUnion nfa sts a)))"
  let ?b1 = "b\<lparr>dfaTransitions := dfaTransitions b @ [mkTransition s [c] a]\<rparr>"
  have e: "exploreSymbol nfa s sts a b =
             (if c \<in> set (dfaStates ?b1) then ?b1
              else ?b1\<lparr>dfaStates := dfaStates ?b1 @ [c], stack := stack ?b1 @ [c]\<rparr>)"
    by (simp only: exploreSymbol_def Let_def True if_True c_def)
  have r1: "rowInv nfa s (insert a D) ?b1" using inv a by (rule rowInv_add_transition)
  show ?thesis
  proof (cases "c \<in> set (dfaStates ?b1)")
    case True
    with r1 show ?thesis by (simp only: e if_True)
  next
    case False
    from rowInv_push_state[OF r1 False] False show ?thesis by (simp only: e if_False)
  qed
next
  case False
  let ?t = "b\<lparr>dfaTransitions :=
                 dfaTransitions b @ map (\<lambda>a'. mkTransition TRAP [TRAP] a') (alphabet nfa),
               dfaStates := dfaStates b @ [TRAP]\<rparr>"
  show ?thesis
  proof (cases "TRAP \<in> set (dfaStates b)")
    case True
    have e: "exploreSymbol nfa s sts a b =
               b\<lparr>dfaTransitions := dfaTransitions b @ [mkTransition s [TRAP] a]\<rparr>"
      by (simp only: exploreSymbol_def addTrap_def Let_def False if_False True if_True)
    from rowInv_add_transition[OF inv a, of TRAP] show ?thesis by (simp only: e)
  next
    case nt: False
    have e: "exploreSymbol nfa s sts a b =
               ?t\<lparr>dfaTransitions := dfaTransitions ?t @ [mkTransition s [TRAP] a]\<rparr>"
      by (simp only: exploreSymbol_def addTrap_def Let_def False if_False nt)
    have "rowInv nfa s D ?t" using inv nt d by (rule rowInv_add_trap)
    from rowInv_add_transition[OF this a, of TRAP] show ?thesis by (simp only: e)
  qed
qed

lemma fold_exploreSymbol_rowInv:
  assumes "rowInv nfa s D b" and "distinct as" and "set as \<inter> D = {}" and "distinct (alphabet nfa)"
  shows "rowInv nfa s (D \<union> set as) (fold (exploreSymbol nfa s sts) as b)"
  using assms
proof (induction as arbitrary: D b)
  case Nil then show ?case by simp
next
  case (Cons a as)
  have "rowInv nfa s (insert a D) (exploreSymbol nfa s sts a b)"
    using Cons.prems by (intro exploreSymbol_rowInv) auto
  from Cons.IH[OF this] Cons.prems show ?case by simp
qed

lemma exploreState_loopInv:
  assumes inv: "loopInv nfa b" and ne: "stack b \<noteq> []" and d: "distinct (alphabet nfa)"
  shows "loopInv nfa (exploreState nfa (last (stack b))
                        (b\<lparr>stack := butlast (stack b), stepCounter := stepCounter b + 1\<rparr>))"
proof -
  let ?s = "last (stack b)"
  let ?b1 = "b\<lparr>stack := butlast (stack b), stepCounter := stepCounter b + 1\<rparr>"
  have sp: "stack b = butlast (stack b) @ [?s]" using ne by simp
  have dist: "distinct (butlast (stack b) @ [?s])" using inv sp unfolding loopInv_def by metis
  then have s_notin: "?s \<notin> set (butlast (stack b))" by simp
  have s_in: "?s \<in> set (stack b)" using ne by simp
  have mem: "x \<in> set (stack b) \<longleftrightarrow> x \<in> set (butlast (stack b)) \<or> x = ?s" for x
    by (subst sp) auto
  have nosrc: "\<forall>t \<in> set (dfaTransitions b). state t \<noteq> ?s"
    using inv s_in unfolding loopInv_def by auto
  have "rowInv nfa ?s {} ?b1"
    unfolding rowInv_def
    using inv dist s_notin s_in mem outgoing_no_source[OF nosrc]
    by (auto simp: loopInv_def dest: in_set_butlastD)
  from fold_exploreSymbol_rowInv[OF this, of "alphabet nfa" "memberStates ?s"] d
  have "rowInv nfa ?s (set (alphabet nfa)) (exploreState nfa ?s ?b1)"
    by (simp add: exploreState_def)
  then show ?thesis
    unfolding rowInv_def loopInv_def rowComplete_def by auto
qed

lemma exploreSymbol_frame:
  "stepCounter (exploreSymbol nfa s sts a b) = stepCounter b
   \<and> stepInterrupt (exploreSymbol nfa s sts a b) = stepInterrupt b"
  by (simp add: exploreSymbol_def addTrap_def Let_def)

lemma exploreState_frame:
  "stepCounter (exploreState nfa s b) = stepCounter b
   \<and> stepInterrupt (exploreState nfa s b) = stepInterrupt b"
proof -
  have "stepCounter (fold (exploreSymbol nfa s sts) as b) = stepCounter b
        \<and> stepInterrupt (fold (exploreSymbol nfa s sts) as b) = stepInterrupt b" for sts as
    by (induction as arbitrary: b) (simp_all add: exploreSymbol_frame)
  then show ?thesis by (simp add: exploreState_def)
qed

lemma subsetLoop_outcome:
  "\<not> stepInterrupt b \<Longrightarrow>
     (stepInterrupt (subsetLoop nfa stop b) \<longrightarrow> stepCounter (subsetLoop nfa stop b) = stop)
     \<and> (\<not> stepInterrupt (subsetLoop nfa stop b) \<longrightarrow> stack (subsetLoop nfa stop b) = [])"
proof (induction nfa stop b rule: subsetLoop.induct)
  case (1 nfa stop b)
  show ?case
  proof (cases "stack b = []")
    case True
    with "1.prems" show ?thesis by (simp add: subsetLoop_empty)
  next
    case ne: False
    show ?thesis
    proof (cases "stepCounter b + 1 = stop")
      case True
      with ne show ?thesis by (simp add: subsetLoop_interrupt)
    next
      case False
      let ?b1 = "b\<lparr>stack := butlast (stack b), stepCounter := stepCounter b + 1\<rparr>"
      have "\<not> stepInterrupt (exploreState nfa (last (stack b)) ?b1)"
        using "1.prems" by (simp add: exploreState_frame)
      from "1.IH"[OF ne refl refl _ this] False ne show ?thesis
        by (simp add: subsetLoop_explore)
    qed
  qed
qed

lemma subsetLoop_unlimited:
  "stop \<le> stepCounter b \<Longrightarrow> \<not> stepInterrupt b \<Longrightarrow> loopInv nfa b \<Longrightarrow> distinct (alphabet nfa) \<Longrightarrow>
     \<not> stepInterrupt (subsetLoop nfa stop b) \<and> loopInv nfa (subsetLoop nfa stop b)"
proof (induction nfa stop b rule: subsetLoop.induct)
  case (1 nfa stop b)
  show ?case
  proof (cases "stack b = []")
    case True
    with "1.prems" show ?thesis by (simp add: subsetLoop_empty)
  next
    case ne: False
    let ?b1 = "b\<lparr>stack := butlast (stack b), stepCounter := stepCounter b + 1\<rparr>"
    let ?b2 = "exploreState nfa (last (stack b)) ?b1"
    have neq: "stepCounter b + 1 \<noteq> stop" using "1.prems"(1) by simp
    have a: "stop \<le> stepCounter ?b2" using "1.prems"(1) by (simp add: exploreState_frame)
    have b: "\<not> stepInterrupt ?b2" using "1.prems"(2) by (simp add: exploreState_frame)
    have c: "loopInv nfa ?b2" using "1.prems"(3) ne "1.prems"(4) by (rule exploreState_loopInv)
    from "1.IH"[OF ne refl refl _ a b c "1.prems"(4)] neq ne show ?thesis
      by (simp add: subsetLoop_explore)
  qed
qed

lemma loopInv_initialBuild: "loopInv nfa (initialBuild nfa)"
  by (simp add: loopInv_def initialBuild_def)

lemma lambdaClosureNFA_alphabet:
  "lambdaClosureNFA d nfa0 = Some nfa \<Longrightarrow> alphabet nfa = alphabet nfa0"
  by (auto simp: lambdaClosureNFA_def Let_def split: if_splits option.splits)

lemma findNextStates_outgoing:
  "findNextStates s a ts = fold (\<lambda>t acc. pushNew (nextStates t) acc) (outgoing s a ts) []"
  by (simp add: findNextStates_def outgoing_def)

lemma findNextStates_single:
  "outgoing s a ts = [mkTransition s [n] a] \<Longrightarrow> findNextStates s a ts = [n]"
  by (simp add: findNextStates_outgoing pushNew_def)

text \<open>
  The automaton that \<open>generateDFA\<close> returns without a step limit is total and
  deterministic, and \<open>generateDFA\<close> returns whenever the epsilon elimination does.
\<close>

lemma generateDFA_total_if_returns:
  assumes "distinct (alphabet nfa0)"
  shows "case generateDFA d nfa0 (- 1) n of
           None \<Rightarrow> lambdaClosureNFA d nfa0 = None
         | Some (dfa, n') \<Rightarrow>
             (\<forall>s \<in> set (states dfa). \<forall>a \<in> set (alphabet dfa).
                \<exists>x. outgoing s a (transitions dfa) = [mkTransition s [x] a]
                    \<and> findNextStates s a (transitions dfa) = [x])"
proof (cases "lambdaClosureNFA d nfa0")
  case None
  then show ?thesis by (simp add: generateDFA_def)
next
  case (Some nfa)
  let ?b = "subsetLoop nfa (- 1) (initialBuild nfa)"
  have d: "distinct (alphabet nfa)" using assms lambdaClosureNFA_alphabet[OF Some] by simp
  have "\<not> stepInterrupt ?b \<and> loopInv nfa ?b"
    by (rule subsetLoop_unlimited) (simp_all add: initialBuild_def loopInv_initialBuild[unfolded initialBuild_def] d)
  moreover have "\<not> stepInterrupt ?b \<longrightarrow> stack ?b = []"
    using subsetLoop_outcome[of "initialBuild nfa" nfa "- 1"] by (simp add: initialBuild_def)
  ultimately have rows: "\<forall>s \<in> set (dfaStates ?b). rowComplete (alphabet nfa) (dfaTransitions ?b) s"
    by (simp add: loopInv_def)
  have "\<forall>s \<in> set (dfaStates ?b). \<forall>a \<in> set (alphabet nfa).
                \<exists>x. outgoing s a (dfaTransitions ?b) = [mkTransition s [x] a]
                    \<and> findNextStates s a (dfaTransitions ?b) = [x]"
  proof (intro ballI)
    fix s a assume "s \<in> set (dfaStates ?b)" "a \<in> set (alphabet nfa)"
    with rows obtain x where "outgoing s a (dfaTransitions ?b) = [mkTransition s [x] a]"
      unfolding rowComplete_def by blast
    then show "\<exists>x. outgoing s a (dfaTransitions ?b) = [mkTransition s [x] a]
                    \<and> findNextStates s a (dfaTransitions ?b) = [x]"
      using findNextStates_single by blast
  qed
  with Some show ?thesis by (simp add: generateDFA_def Let_def)
qed

text \<open>
  It does return, with such an automaton, when the epsilon transitions form no cycle
  through two or more states, and in particular when there is no epsilon transition.
\<close>

lemma generateDFA_total_when_acyclic:
  assumes "distinct (alphabet nfa0)"
    and "epsilonRanked rank (transitions nfa0)" and "\<forall>s. rank s < d"
  shows "\<exists>dfa n'. generateDFA d nfa0 (- 1) n = Some (dfa, n')
           \<and> (\<forall>s \<in> set (states dfa). \<forall>a \<in> set (alphabet dfa).
                \<exists>x. outgoing s a (transitions dfa) = [mkTransition s [x] a]
                    \<and> findNextStates s a (transitions dfa) = [x])"
proof -
  from lambdaClosureNFA_returns[OF assms(2,3)] obtain nfa where
    "lambdaClosureNFA d nfa0 = Some nfa" by blast
  then obtain r where r: "generateDFA d nfa0 (- 1) n = Some r"
    by (simp add: generateDFA_def Let_def)
  from generateDFA_total_if_returns[OF assms(1), of d n] r show ?thesis
    by (cases r) auto
qed

lemma generateDFA_total_without_lambda:
  assumes "distinct (alphabet nfa0)" and "\<not> hasLambda nfa0"
  shows "\<exists>dfa n'. generateDFA d nfa0 (- 1) n = Some (dfa, n')
           \<and> (\<forall>s \<in> set (states dfa). \<forall>a \<in> set (alphabet dfa).
                \<exists>x. outgoing s a (transitions dfa) = [mkTransition s [x] a]
                    \<and> findNextStates s a (transitions dfa) = [x])"
proof -
  from assms(2) obtain r where r: "generateDFA d nfa0 (- 1) n = Some r"
    by (simp add: generateDFA_def lambdaClosureNFA_def Let_def)
  from generateDFA_total_if_returns[OF assms(1), of d n] r show ?thesis
    by (cases r) auto
qed

lemma fetch_E_Closure_cyclicNFA:
  "fetch_E_Closure d (js ''A'') (transitions cyclicNFA) = None
   \<and> fetch_E_Closure d (js ''B'') (transitions cyclicNFA) = None"
proof (induction d)
  case 0 show ?case by simp
next
  case (Suc d)
  then show ?case
    by (simp add: cyclicNFA_def mkTransition_def trim_def isWhiteSpace_def LAMBDA_def
                  isEpsilon_def js_def)
qed

text \<open>
  Claim C1 on the code: on the automaton with the cycle \<open>A -\<lambda>-> B\<close>, \<open>B -\<lambda>-> A\<close> the
  epsilon elimination that \<open>generateDFA\<close> starts with never returns, whatever the bound on
  the depth of the recursion, and so \<open>generateDFA\<close> returns no automaton at all.
\<close>

theorem generateDFA_cycle_never_returns:
  "distinct (alphabet cyclicNFA) \<and> initialState cyclicNFA \<in> set (states cyclicNFA)
   \<and> lambdaClosureNFA d cyclicNFA = None
   \<and> generateDFA d cyclicNFA (- 1) n = None"
proof -
  have "closeState d cyclicNFA (js ''A'') [] = None"
    using fetch_E_Closure_cyclicNFA[of d] by (simp add: closeState_def)
  then have "forEachOpt (states cyclicNFA) (closeState d cyclicNFA) [] = None"
    by (simp add: cyclicNFA_def)
  moreover have "hasLambda cyclicNFA"
    by (simp add: cyclicNFA_def hasLambda_def mkTransition_def)
  ultimately have l: "lambdaClosureNFA d cyclicNFA = None"
    by (simp add: lambdaClosureNFA_def)
  then have "generateDFA d cyclicNFA (- 1) n = None" by (simp add: generateDFA_def)
  with l show ?thesis by (simp add: cyclicNFA_def)
qed



section \<open>Properties of the subset constructor\<close>

text \<open>
  Subset construction discovers \<open>{A,B}\<close> on reading \<open>0\<close> from \<open>A\<close>, and \<open>{A,C}\<close> is final.
\<close>

lemma generateDFA_scenarioNFA:
  "generateDFA d scenarioNFA (- 1) n =
     Some (\<lparr>initialState = js ''A'', finalStates = [js ''AC''],
            states = [js ''A'', js ''{A,B}'', js ''{A,C}''], alphabet = [js ''0'', js ''1''],
            transitions = [mkTransition (js ''A'') [js ''{A,B}''] (js ''0''),
                           mkTransition (js ''A'') [js ''A''] (js ''1''),
                           mkTransition (js ''{A,B}'') [js ''{A,B}''] (js ''0''),
                           mkTransition (js ''{A,B}'') [js ''{A,C}''] (js ''1''),
                           mkTransition (js ''{A,C}'') [js ''{A,B}''] (js ''0''),
                           mkTransition (js ''{A,C}'') [js ''A''] (js ''1'')]\<rparr>, 3)"
  by (simp add: scenarioNFA_def eval_simps)

text \<open>
  Claim C3 on the code: a DFA state is to be final exactly when the sequence of its
  members contains a final state of the automaton.  For a simple state the code tests
  whether a final state's name occurs in the state's name as a substring.  With the one
  final state \<open>A\<close>, the states discovered from \<open>S -0-> A\<close> are \<open>S\<close>, \<open>A\<close> and \<open>TRAP\<close>,
  and \<open>TRAP\<close>, whose only member is \<open>TRAP\<close>, is classified as final because its name
  contains the letter \<open>A\<close>.
\<close>

theorem generateDFA_trap_classified_final:
  "generateDFA d trapNFA (- 1) n =
     Some (\<lparr>initialState = js ''S'', finalStates = [js ''A'', js ''TRAP''],
            states = [js ''S'', js ''A'', js ''TRAP''], alphabet = [js ''0''],
            transitions = [mkTransition (js ''S'') [js ''A''] (js ''0''),
                           mkTransition (js ''TRAP'') [js ''TRAP''] (js ''0''),
                           mkTransition (js ''A'') [js ''TRAP''] (js ''0'')]\<rparr>, 2)
   \<and> finalStates trapNFA = [js ''A'']
   \<and> memberStates (js ''TRAP'') = [js ''TRAP'']
   \<and> js ''A'' \<notin> set (memberStates (js ''TRAP''))"
  by (simp add: trapNFA_def eval_simps)

text \<open>
  Claim C9, as stated, fails in its second half: the entry that the composite final state
  \<open>{A,B}\<close> leaves in \<open>finalStates\<close> is \<open>AB\<close>, and \<open>AB\<close> is a member of the state list of
  the same automaton.
\<close>

theorem finalStates_entry_equals_state_counterexample:
  "generateDFA 0 concatNFA (- 1) 0 =
     Some (\<lparr>initialState = js ''AB'', finalStates = [js ''AB'', js ''AB''],
            states = [js ''AB'', js ''{A,B}'', js ''A''], alphabet = [js ''0''],
            transitions = [mkTransition (js ''AB'') [js ''{A,B}''] (js ''0''),
                           mkTransition (js ''{A,B}'') [js ''A''] (js ''0''),
                           mkTransition (js ''A'') [js ''A''] (js ''0'')]\<rparr>, 3)
   \<and> isMultiState (js ''{A,B}'')
   \<and> isFinalState concatNFA (js ''{A,B}'')
   \<and> formatDotState (js ''{A,B}'') = js ''AB''
   \<and> js ''AB'' \<in> set [js ''AB'', js ''{A,B}'', js ''A'']"
  by (simp add: concatNFA_def eval_simps)

lemma formatDotState_multi_neq: "isMultiState s \<Longrightarrow> formatDotState s \<noteq> s"
proof -
  assume m: "isMultiState s"
  then have "s \<noteq> []" by (auto simp: isMultiState_def endsWith_def)
  have "length (formatDotState s) \<le> length (slice_1_m1 s)"
    using m by (simp add: formatDotState_def)
  also have "\<dots> < length s" using \<open>s \<noteq> []\<close> by (simp add: slice_1_m1_def)
  finally show ?thesis by auto
qed

text \<open>
  Claim C9, amended: the \<open>finalStates\<close> list of the automaton returned by \<open>generateDFA\<close>
  holds, for every state classified as final and in the order of the state list, the
  formatted name of the state.  For a composite state the formatted name is the
  identifier without its brackets and commas, and it differs from the state's own
  identifier (it may still be the identifier of another state).
\<close>

theorem generateDFA_finalStates_formatted:
  assumes "generateDFA d nfa0 stop n = Some (dfa, n')"
  shows "(\<exists>nfa. lambdaClosureNFA d nfa0 = Some nfa
            \<and> finalStates dfa = map formatDotState (filter (isFinalState nfa) (states dfa)))
         \<and> (\<forall>s \<in> set (states dfa). isMultiState s \<longrightarrow>
               formatDotState s = filter (\<lambda>c. c \<noteq> COMMA) (slice_1_m1 s) \<and> formatDotState s \<noteq> s)"
proof
  from assms show "\<exists>nfa. lambdaClosureNFA d nfa0 = Some nfa
            \<and> finalStates dfa = map formatDotState (filter (isFinalState nfa) (states dfa))"
    by (auto simp: generateDFA_def Let_def split: option.splits)
next
  show "\<forall>s \<in> set (states dfa). isMultiState s \<longrightarrow>
               formatDotState s = filter (\<lambda>c. c \<noteq> COMMA) (slice_1_m1 s) \<and> formatDotState s \<noteq> s"
    using formatDotState_multi_neq by (simp add: formatDotState_def)
qed

theorem generateDFA_finalStates_formatted_witness:
  "generateDFA 0 concatNFA (- 1) 0 \<noteq> None
   \<and> js ''{A,B}'' \<in> set (states (fst (the (generateDFA 0 concatNFA (- 1) 0))))
   \<and> isMultiState (js ''{A,B}'')
   \<and> formatDotState (js ''{A,B}'') \<noteq> js ''{A,B}''
   \<and> finalStates (fst (the (generateDFA 0 concatNFA (- 1) 0))) =
       map formatDotState
         (filter (isFinalState concatNFA) (states (fst (the (generateDFA 0 concatNFA (- 1) 0)))))"
proof -
  have g: "generateDFA 0 concatNFA (- 1) 0 =
     Some (\<lparr>initialState = js ''AB'', finalStates = [js ''AB'', js ''AB''],
            states = [js ''AB'', js ''{A,B}'', js ''A''], alphabet = [js ''0''],
            transitions = [mkTransition (js ''AB'') [js ''{A,B}''] (js ''0''),
                           mkTransition (js ''{A,B}'') [js ''A''] (js ''0''),
                           mkTransition (js ''A'') [js ''A''] (js ''0'')]\<rparr>, 3)"
    by (simp add: concatNFA_def eval_simps)
  have l: "lambdaClosureNFA 0 concatNFA = Some concatNFA"
    by (simp add: concatNFA_def lambdaClosureNFA_def hasLambda_def mkTransition_def js_simps)
  from generateDFA_finalStates_formatted [OF g] l show ?thesis
    by (simp add: g) (simp add: eval_simps)
qed

section \<open>Properties of the minimizer\<close>

lemma generateDFA_mergeNFA: "generateDFA d mergeNFA (- 1) n = Some (mergeDFA, 3)"
  by (simp add: mergeNFA_def mergeDFA_def eval_simps)

text \<open>
  The trap state leaves the state list in the same way, when a composite state with the
  formatted name \<open>TRAP\<close> is merged away.
\<close>

lemma minimizeDFA_removes_TRAP:
  "TRAP \<in> set (states emptyNameDFA) \<and> states (minimizeDFA emptyNameDFA) = [js ''S'']"
  by (simp add: emptyNameDFA_def minimizeDFA_def mergePair_def rewriteTarget_def eval_simps)

text \<open>
  Claim C4 on the code: \<open>minimizeDFA\<close> finds \<open>{A,B}\<close> and \<open>X\<close> equivalent and removes
  \<open>{A,B}\<close>.  The state list is filtered by formatted name, and the formatted name of
  \<open>{A,B}\<close> is \<open>AB\<close>, the name of the initial state: the initial state leaves the state
  list with it.
\<close>

theorem minimizeDFA_removes_initialState:
  "initialState mergeDFA \<in> set (states mergeDFA)
   \<and> states (minimizeDFA mergeDFA) = [js ''X'']
   \<and> initialState (minimizeDFA mergeDFA) = js ''AB''
   \<and> initialState (minimizeDFA mergeDFA) \<notin> set (states (minimizeDFA mergeDFA))"
  by (simp add: mergeDFA_def minimizeDFA_def mergePair_def rewriteTarget_def eval_simps)

end
